theory Spec2Isabelle
  imports Main "HOL-Library.Word" "HOL-Library.Signed_Division" "HOL-Library.Sublist"
begin

section \<open>Go strings\<close>

text \<open>
  A Go string is a sequence of bytes, here a \<^typ>\<open>string\<close>.  The functions of package
  \<^verbatim>\<open>strings\<close> that the stack classifier calls are written out below.
\<close>

definition HasPrefix :: "string \<Rightarrow> string \<Rightarrow> bool" where
  "HasPrefix s pre = (take (length pre) s = pre)"

fun Contains :: "string \<Rightarrow> string \<Rightarrow> bool" where
  "Contains [] substr = (substr = [])"
| "Contains (c # cs) substr = (HasPrefix (c # cs) substr \<or> Contains cs substr)"

text \<open>\<^verbatim>\<open>strings.Split(s, sep)\<close> for a separator of one byte: the pieces between the
  separators, so one piece more than there are separators.\<close>

fun Split :: "string \<Rightarrow> char \<Rightarrow> string list" where
  "Split [] sep = [[]]"
| "Split (c # cs) sep =
     (if c = sep then [] # Split cs sep
      else (case Split cs sep of
              [] \<Rightarrow> [[c]]
            | piece # pieces \<Rightarrow> (c # piece) # pieces))"

definition HasSuffix :: "string \<Rightarrow> string \<Rightarrow> bool" where
  "HasSuffix s suf = (length suf \<le> length s \<and> drop (length s - length suf) s = suf)"

text \<open>\<^verbatim>\<open>strings.TrimSpace\<close> removes the leading and the trailing white space as Unicode
  defines it (\<^verbatim>\<open>unicode.IsSpace\<close>): it decodes the string as UTF-8, forwards from the
  start and backwards from the end, and stops at the first rune that is not white
  space.  A rune is white space exactly when its bytes are the UTF-8 encoding of one of
  U+0009 to U+000D, U+0020, U+0085, U+00A0, U+1680, U+2000 to U+200A, U+2028, U+2029,
  U+202F, U+205F and U+3000; bytes that are not valid UTF-8 decode to U+FFFD, which is not
  white space.  \<open>spaceRunes\<close> lists these encodings.\<close>

definition spaceRunes :: "string list" where
  "spaceRunes =
     [[CHR 0x09], [CHR 0x0A], [CHR 0x0B], [CHR 0x0C], [CHR 0x0D], [CHR 0x20],
      [CHR 0xC2, CHR 0x85], [CHR 0xC2, CHR 0xA0],
      [CHR 0xE1, CHR 0x9A, CHR 0x80],
      [CHR 0xE2, CHR 0x80, CHR 0x80], [CHR 0xE2, CHR 0x80, CHR 0x81],
      [CHR 0xE2, CHR 0x80, CHR 0x82], [CHR 0xE2, CHR 0x80, CHR 0x83],
      [CHR 0xE2, CHR 0x80, CHR 0x84], [CHR 0xE2, CHR 0x80, CHR 0x85],
      [CHR 0xE2, CHR 0x80, CHR 0x86], [CHR 0xE2, CHR 0x80, CHR 0x87],
      [CHR 0xE2, CHR 0x80, CHR 0x88], [CHR 0xE2, CHR 0x80, CHR 0x89],
      [CHR 0xE2, CHR 0x80, CHR 0x8A],
      [CHR 0xE2, CHR 0x80, CHR 0xA8], [CHR 0xE2, CHR 0x80, CHR 0xA9],
      [CHR 0xE2, CHR 0x80, CHR 0xAF], [CHR 0xE2, CHR 0x81, CHR 0x9F],
      [CHR 0xE3, CHR 0x80, CHR 0x80]]"

text \<open>The width in bytes of the white-space rune at the start, and at the end, of a
  string; 0 when there is none.\<close>

definition leadingSpace :: "string \<Rightarrow> nat" where
  "leadingSpace s = (case find (HasPrefix s) spaceRunes of None \<Rightarrow> 0 | Some r \<Rightarrow> length r)"

definition trailingSpace :: "string \<Rightarrow> nat" where
  "trailingSpace s = (case find (HasSuffix s) spaceRunes of None \<Rightarrow> 0 | Some r \<Rightarrow> length r)"

function TrimLeftSpace :: "string \<Rightarrow> string" where
  "TrimLeftSpace s =
     (if leadingSpace s = 0 then s else TrimLeftSpace (drop (leadingSpace s) s))"
  by pat_completeness auto
termination
proof (relation "measure length", goal_cases)
  case 1
  show ?case by simp
next
  case (2 s)
  then obtain r where f: "find (HasPrefix s) spaceRunes = Some r"
    and l: "leadingSpace s = length r"
    by (auto simp: leadingSpace_def split: option.splits)
  from f have pre: "HasPrefix s r" and mem: "r \<in> set spaceRunes"
    by (auto simp: find_Some_iff)
  from mem have "r \<noteq> []" by (auto simp: spaceRunes_def)
  moreover from pre have "length r \<le> length s"
    unfolding HasPrefix_def by (metis length_take min.cobounded1)
  ultimately have "length s - leadingSpace s < length s"
    using l by (cases r) simp_all
  then show ?case by simp
qed

function TrimRightSpace :: "string \<Rightarrow> string" where
  "TrimRightSpace s =
     (if trailingSpace s = 0 then s
      else TrimRightSpace (take (length s - trailingSpace s) s))"
  by pat_completeness auto
termination
proof (relation "measure length", goal_cases)
  case 1
  show ?case by simp
next
  case (2 s)
  then obtain r where f: "find (HasSuffix s) spaceRunes = Some r"
    and l: "trailingSpace s = length r"
    by (auto simp: trailingSpace_def split: option.splits)
  from f have suf: "HasSuffix s r" and mem: "r \<in> set spaceRunes"
    by (auto simp: find_Some_iff)
  from mem have "r \<noteq> []" by (auto simp: spaceRunes_def)
  moreover from suf have "length r \<le> length s" by (simp add: HasSuffix_def)
  ultimately have "length s - trailingSpace s < length s"
    using l by (cases r) simp_all
  then show ?case by simp
qed

definition TrimSpace :: "string \<Rightarrow> string" where
  "TrimSpace s = TrimRightSpace (TrimLeftSpace s)"

text \<open>\<^verbatim>\<open>strings.SplitN(s, sep, 2)\<close> for a separator of one byte: the text before the
  first separator and the rest after it, or the whole string when there is none.\<close>

definition SplitN2 :: "string \<Rightarrow> char \<Rightarrow> string list" where
  "SplitN2 s sep =
     (if sep \<in> set s
      then [takeWhile (\<lambda>c. c \<noteq> sep) s, tl (dropWhile (\<lambda>c. c \<noteq> sep) s)]
      else [s])"

section \<open>The stack classifier (internal/detector/filter.go)\<close>

definition isRuntimeFrame :: "string \<Rightarrow> string \<Rightarrow> bool" where
  "isRuntimeFrame funcName line =
     (HasPrefix funcName ''runtime.'' \<or>
      Contains line ''runtime/'' \<or>
      HasPrefix funcName ''runtime2.'' \<or>
      Contains line ''/runtime/trace'' \<or>
      HasPrefix funcName ''testing.'' \<or>
      Contains line ''_testmain.go'')"

text \<open>The body of the loop of \<^verbatim>\<open>isRuntimeGoroutine\<close> for one line of the stack:
  \<open>None\<close> is \<^verbatim>\<open>continue\<close>, \<open>Some b\<close> is \<^verbatim>\<open>return b\<close>.\<close>

definition frameLine :: "string \<Rightarrow> bool option" where
  "frameLine raw =
     (let line = TrimSpace raw in
      if line = [] then None
      else (case SplitN2 line CHR 0x20 of
              [] \<Rightarrow> None
            | funcName # rest \<Rightarrow>
                if \<not> isRuntimeFrame funcName line then Some False else None))"

fun runtimeLines :: "string list \<Rightarrow> bool" where
  "runtimeLines [] = True"
| "runtimeLines (raw # raws) =
     (case frameLine raw of
        Some b \<Rightarrow> b
      | None \<Rightarrow> runtimeLines raws)"

definition isRuntimeGoroutine :: "string \<Rightarrow> bool" where
  "isRuntimeGoroutine stack =
     (if stack = [] then True else runtimeLines (Split stack CHR 0x0A))"

definition isNonTestRuntimeGoroutine :: "string \<Rightarrow> bool" where
  "isNonTestRuntimeGoroutine stack =
     (if \<not> isRuntimeGoroutine stack then False
      else \<not> Contains stack ''testing.'')"

subsection \<open>The testing frames of a stack, in the words of the specification\<close>

text \<open>The frames of a rendered stack are its non-empty lines, without the white space
  around them; the function of a frame is the text before its first blank.  A stack
  contains a \<^verbatim>\<open>testing.\<close> function when the function of one of its frames begins with
  \<^verbatim>\<open>testing.\<close>, as in the definition of a runtime frame.\<close>

definition spec_frames :: "string \<Rightarrow> string list" where
  "spec_frames stack = filter (\<lambda>line. line \<noteq> []) (map TrimSpace (Split stack CHR 0x0A))"

definition spec_frame_function :: "string \<Rightarrow> string" where
  "spec_frame_function line = takeWhile (\<lambda>c. c \<noteq> CHR 0x20) line"

definition spec_has_testing_function :: "string \<Rightarrow> bool" where
  "spec_has_testing_function stack =
     list_ex (\<lambda>line. HasPrefix (spec_frame_function line) ''testing.'') (spec_frames stack)"

section \<open>The data model of the detector (internal/detector/analyzer.go)\<close>

text \<open>\<^verbatim>\<open>trace.GoID\<close>, \<^verbatim>\<open>trace.Time\<close> and \<^verbatim>\<open>time.Duration\<close> are \<^verbatim>\<open>int64\<close>: 64-bit words,
  compared as signed numbers (\<^const>\<open>word_sless\<close>, \<^const>\<open>word_sle\<close>), with wrapping
  subtraction.  \<^verbatim>\<open>Kind\<close> and \<^verbatim>\<open>Confidence\<close> are string types with named constants.\<close>

type_synonym GoID = "64 word"
type_synonym Time = "64 word"
type_synonym Duration = "64 word"
type_synonym Kind = string
type_synonym Confidence = string

definition KindGoroutineLeak :: Kind where "KindGoroutineLeak = ''goroutine_leak''"
definition KindDeadlock :: Kind where "KindDeadlock = ''deadlock''"
definition KindLongBlock :: Kind where "KindLongBlock = ''long_block''"
definition KindLockLeak :: Kind where "KindLockLeak = ''lock_leak''"

definition ConfidenceHigh :: Confidence where "ConfidenceHigh = ''high''"
definition ConfidenceMedium :: Confidence where "ConfidenceMedium = ''medium''"
definition ConfidenceLow :: Confidence where "ConfidenceLow = ''low''"

definition Nanosecond :: Duration where "Nanosecond = 1"
definition Millisecond :: Duration where "Millisecond = 1000000"

record Options =
  MinBlock :: Duration
  DebugFiltered :: bool

record Finding =
  Kind :: Kind
  Confidence :: Confidence
  GoroutineID :: GoID
  BlockedOn :: string
  BlockedFor :: Duration
  Stack :: string
  Function :: string
  Location :: string

record Result =
  TraceFile :: string
  DurationMs :: "64 word"
  GoroutinesAnalyzed :: nat
  Findings :: "Finding list"

record syncEntry =
  entryLocation :: string
  endTime :: Time

text \<open>The per-goroutine record.  The field \<^verbatim>\<open>function\<close> of the source is \<open>function'\<close>
  here.  \<open>syncHistory\<close> is the array of \<^verbatim>\<open>syncHistorySize\<close> entries; \<open>syncHistoryIdx\<close>
  counts the entries written and only grows from 0.\<close>

record goroutineState =
  reason :: string
  stack :: string
  function' :: string
  location :: string
  blockStart :: Time
  isBlocked :: bool
  creationStack :: string
  creationSeen :: bool
  creationFunction :: string
  creationLocation :: string
  prevLongBlockReason :: string
  prevLongBlockStack :: string
  prevLongBlockFunction :: string
  prevLongBlockLocation :: string
  prevLongBlockDuration :: Duration
  syncHistory :: "syncEntry list"
  syncHistoryIdx :: nat
  prevSyncLocation :: string
  prevSyncEndTime :: Time
  goroutineDead :: bool

definition syncHistorySize :: nat where "syncHistorySize = 5"

text \<open>The zero value \<^verbatim>\<open>&goroutineState{}\<close>.\<close>

definition zeroState :: goroutineState where
  "zeroState =
     \<lparr>reason = [], stack = [], function' = [], location = [], blockStart = 0,
      isBlocked = False,
      creationStack = [], creationSeen = False, creationFunction = [],
      creationLocation = [],
      prevLongBlockReason = [], prevLongBlockStack = [], prevLongBlockFunction = [],
      prevLongBlockLocation = [], prevLongBlockDuration = 0,
      syncHistory = replicate syncHistorySize \<lparr>entryLocation = [], endTime = 0\<rparr>,
      syncHistoryIdx = 0, prevSyncLocation = [], prevSyncEndTime = 0,
      goroutineDead = False\<rparr>"

text \<open>A goroutine map \<^verbatim>\<open>map[trace.GoID]*goroutineState\<close> is read by the detectors only
  through \<^verbatim>\<open>for gid, g := range goroutines\<close>.  Go leaves the order of that iteration
  unspecified, so a detector takes the entries of the map as a list, in the order in
  which the loop visits them.\<close>

type_synonym goroutines = "(GoID \<times> goroutineState) list"

section \<open>The events of a trace (golang.org/x/exp/trace)\<close>

datatype GoState = GoUndetermined | GoNotExist | GoRunnable | GoRunning | GoWaiting | GoSyscall

definition Executing :: "GoState \<Rightarrow> bool" where
  "Executing s = (s = GoRunning \<or> s = GoSyscall)"

record StackFrame =
  Func :: string
  File :: string
  Line :: nat

text \<open>An event has a time; a state transition of a goroutine carries the goroutine,
  the two states, the reason and the stack.  Every other event is \<open>OtherEvent\<close>.\<close>

record StateTransition =
  trGoroutine :: GoID
  trFrom :: GoState
  trTo :: GoState
  Reason :: string
  trStack :: "StackFrame list"

datatype EventBody = GoroutineTransition StateTransition | OtherEvent

record Event =
  evTime :: Time
  evBody :: EventBody

section \<open>Rendering stacks (extractStack)\<close>

definition digitChar :: "nat \<Rightarrow> char" where
  "digitChar d = ''0123456789'' ! d"

function showNat :: "nat \<Rightarrow> string" where
  "showNat n = (if n < 10 then [digitChar n] else showNat (n div 10) @ [digitChar (n mod 10)])"
  by pat_completeness auto
termination
  by (relation "measure id") auto

text \<open>\<^verbatim>\<open>fmt.Fprintf(&sb, "      %s (%s:%d)\n", f.Func, f.File, f.Line)\<close>\<close>

definition renderFrame :: "StackFrame \<Rightarrow> string" where
  "renderFrame f =
     ''      '' @ Func f @ '' ('' @ File f @ '':'' @ showNat (Line f) @ '')'' @ [CHR 0x0A]"

text \<open>The state of the loop of \<^verbatim>\<open>extractStack\<close> is the buffer and the two named
  results \<^verbatim>\<open>function\<close> and \<^verbatim>\<open>location\<close>.\<close>

fun extractLoop :: "string \<times> string \<times> string \<Rightarrow> StackFrame list \<Rightarrow> string \<times> string \<times> string" where
  "extractLoop acc [] = acc"
| "extractLoop (sb, fn, loc) (f # fs) =
     (if loc = [] \<and> \<not> isRuntimeFrame (Func f) (File f)
      then extractLoop (sb @ renderFrame f, Func f, File f @ '':'' @ showNat (Line f)) fs
      else extractLoop (sb @ renderFrame f, fn, loc) fs)"

definition extractStack :: "StackFrame list \<Rightarrow> string \<times> string \<times> string" where
  "extractStack s = extractLoop ([], [], []) s"

section \<open>The per-goroutine state engine (the event loop of Analyze)\<close>

text \<open>What one state transition does to the record of its goroutine: the four
  \<^verbatim>\<open>if\<close> statements of the loop body, in the order of the source.\<close>

definition recordCreation :: "StateTransition \<Rightarrow> goroutineState \<Rightarrow> goroutineState" where
  "recordCreation st g =
     (if trFrom st = GoNotExist
      then (case extractStack (trStack st) of
              (s, fn, loc) \<Rightarrow>
                g\<lparr>creationStack := s, creationFunction := fn, creationLocation := loc,
                  creationSeen := True\<rparr>)
      else g)"

definition recordDeath :: "StateTransition \<Rightarrow> goroutineState \<Rightarrow> goroutineState" where
  "recordDeath st g = (if trTo st = GoNotExist then g\<lparr>goroutineDead := True\<rparr> else g)"

definition recordBlock :: "Time \<Rightarrow> StateTransition \<Rightarrow> goroutineState \<Rightarrow> goroutineState" where
  "recordBlock t st g =
     (if Executing (trFrom st) \<and> trTo st = GoWaiting
      then (case extractStack (trStack st) of
              (s, fn, loc) \<Rightarrow>
                g\<lparr>isBlocked := True, reason := Reason st, blockStart := t,
                  stack := s, function' := fn, location := loc\<rparr>)
      else g)"

definition captureSync :: "Time \<Rightarrow> goroutineState \<Rightarrow> goroutineState" where
  "captureSync t g =
     (if isBlocked g \<and> reason g = ''sync''
      then
        (let dur = (t - blockStart g) * Nanosecond;
             g1 = (if word_sless (prevLongBlockDuration g) dur
                   then g\<lparr>prevLongBlockReason := reason g,
                          prevLongBlockStack := stack g,
                          prevLongBlockFunction := function' g,
                          prevLongBlockLocation := location g,
                          prevLongBlockDuration := dur\<rparr>
                   else g);
             pos = syncHistoryIdx g1 mod syncHistorySize
         in g1\<lparr>syncHistory := (syncHistory g1)[pos := \<lparr>entryLocation = location g1, endTime = t\<rparr>],
               syncHistoryIdx := syncHistoryIdx g1 + 1,
               prevSyncLocation := location g1,
               prevSyncEndTime := t\<rparr>)
      else g)"

definition recordUnblock :: "Time \<Rightarrow> StateTransition \<Rightarrow> goroutineState \<Rightarrow> goroutineState" where
  "recordUnblock t st g =
     (if trFrom st = GoWaiting \<and> (Executing (trTo st) \<or> trTo st = GoRunnable)
      then (captureSync t g)\<lparr>isBlocked := False, reason := [], stack := [],
                              function' := [], location := []\<rparr>
      else g)"

definition applyTransition :: "Time \<Rightarrow> StateTransition \<Rightarrow> goroutineState \<Rightarrow> goroutineState" where
  "applyTransition t st g =
     recordUnblock t st (recordBlock t st (recordDeath st (recordCreation st g)))"

record engine =
  goroutinesOf :: "GoID \<Rightarrow> goroutineState option"
  firstTime :: Time
  lastTime :: Time
  first :: bool

definition engineStart :: engine where
  "engineStart = \<lparr>goroutinesOf = (\<lambda>gid. None), firstTime = 0, lastTime = 0, first = True\<rparr>"

definition handleEvent :: "engine \<Rightarrow> Event \<Rightarrow> engine" where
  "handleEvent e ev =
     (let e1 = (if first e then e\<lparr>firstTime := evTime ev, first := False\<rparr> else e);
          e2 = e1\<lparr>lastTime := evTime ev\<rparr>
      in case evBody ev of
           OtherEvent \<Rightarrow> e2
         | GoroutineTransition st \<Rightarrow>
             (let gid = trGoroutine st;
                  g = (case goroutinesOf e2 gid of None \<Rightarrow> zeroState | Some g0 \<Rightarrow> g0)
              in e2\<lparr>goroutinesOf := (goroutinesOf e2)(gid \<mapsto> applyTransition (evTime ev) st g)\<rparr>))"

definition runEvents :: "Event list \<Rightarrow> engine" where
  "runEvents evs = foldl handleEvent engineStart evs"

section \<open>The detectors over the final snapshot\<close>

subsection \<open>detectLeaks\<close>

text \<open>One round of the loop of \<^verbatim>\<open>detectLeaks\<close>: every \<^verbatim>\<open>continue\<close> leaves the
  findings as they are, the end of the body appends one finding.\<close>

definition leakStep :: "Time \<Rightarrow> Options \<Rightarrow> Finding list \<Rightarrow> GoID \<times> goroutineState \<Rightarrow> Finding list" where
  "leakStep lastT opts findings entry =
     (case entry of (gid, g) \<Rightarrow>
        if \<not> isBlocked g then findings
        else if isRuntimeGoroutine (stack g) then findings
        else if reason g = ''sleep'' then findings
        else
          (let isChanBlock = (reason g = ''chan send'' \<or> reason g = ''chan receive'');
               isSyncBlock = (reason g = ''sync'')
           in if isChanBlock \<and> \<not> creationSeen g then findings
              else if isChanBlock \<and> isNonTestRuntimeGoroutine (creationStack g) then findings
              else if \<not> isChanBlock \<and> \<not> isSyncBlock \<and>
                      (\<not> creationSeen g \<or> isNonTestRuntimeGoroutine (creationStack g))
                   then findings
              else
                (let blocked = (lastT - blockStart g) * Nanosecond
                 in if reason g = ''chan send'' \<or> reason g = ''chan receive''
                    then findings @
                      [\<lparr>Kind = KindGoroutineLeak, Confidence = ConfidenceHigh,
                        GoroutineID = gid, BlockedOn = reason g, BlockedFor = blocked,
                        Stack = stack g, Function = function' g, Location = location g\<rparr>]
                    else if word_sless blocked (MinBlock opts) then findings
                    else findings @
                      [\<lparr>Kind = KindLongBlock, Confidence = ConfidenceMedium,
                        GoroutineID = gid, BlockedOn = reason g, BlockedFor = blocked,
                        Stack = stack g, Function = function' g, Location = location g\<rparr>])))"

definition detectLeaks :: "goroutines \<Rightarrow> Time \<Rightarrow> Options \<Rightarrow> Finding list" where
  "detectLeaks gs lastT opts = foldl (leakStep lastT opts) [] gs"

text \<open>Section 4.4 of the specification, for one goroutine of the snapshot: the finding
  it asks for, or none.\<close>

definition spec_provenance_ok :: "goroutineState \<Rightarrow> bool" where
  "spec_provenance_ok g = (creationSeen g \<and> \<not> isNonTestRuntimeGoroutine (creationStack g))"

definition spec_leak_finding :: "Time \<Rightarrow> Options \<Rightarrow> GoID \<times> goroutineState \<Rightarrow> Finding option" where
  "spec_leak_finding lastT opts entry =
     (case entry of (gid, g) \<Rightarrow>
        (let blocked_for = lastT - blockStart g;
             found = (\<lambda>k c. Some \<lparr>Kind = k, Confidence = c, GoroutineID = gid,
                                  BlockedOn = reason g, BlockedFor = blocked_for,
                                  Stack = stack g, Function = function' g,
                                  Location = location g\<rparr>)
         in if \<not> isBlocked g then None
            else if isRuntimeGoroutine (stack g) \<or> reason g = ''sleep'' then None
            else if reason g = ''chan send'' \<or> reason g = ''chan receive''
                 then (if spec_provenance_ok g
                       then found KindGoroutineLeak ConfidenceHigh else None)
            else if reason g = ''sync''
                 then (if word_sle (MinBlock opts) blocked_for
                       then found KindLongBlock ConfidenceMedium else None)
            else (if spec_provenance_ok g \<and> word_sle (MinBlock opts) blocked_for
                  then found KindLongBlock ConfidenceMedium else None)))"

subsection \<open>detectOrphans\<close>

definition orphanStep :: "Duration \<Rightarrow> Finding list \<Rightarrow> GoID \<times> goroutineState \<Rightarrow> Finding list" where
  "orphanStep traceDuration findings entry =
     (case entry of (gid, g) \<Rightarrow>
        if goroutineDead g then findings
        else if isBlocked g then findings
        else if \<not> creationSeen g then findings
        else if isNonTestRuntimeGoroutine (creationStack g) then findings
        else
          (let fn = creationFunction g; loc = creationLocation g
           in if isRuntimeGoroutine (stack g) \<and> fn = [] then findings
              else findings @
                [\<lparr>Kind = KindGoroutineLeak, Confidence = ConfidenceLow,
                  GoroutineID = gid,
                  BlockedOn = ''never ran (test exited before goroutine was scheduled)'',
                  BlockedFor = traceDuration,
                  Stack = creationStack g, Function = fn, Location = loc\<rparr>]))"

definition detectOrphans :: "goroutines \<Rightarrow> Duration \<Rightarrow> Finding list" where
  "detectOrphans gs traceDuration =
     (if word_sle (200 * Millisecond) traceDuration then []
      else foldl (orphanStep traceDuration) [] gs)"

subsection \<open>detectTransientBlocks\<close>

text \<open>The loop carries the map \<^verbatim>\<open>seen\<close> (a missing key reads as \<^verbatim>\<open>false\<close>) and the
  findings.\<close>

definition transientStep ::
  "Options \<Rightarrow> (string \<Rightarrow> bool) \<times> Finding list \<Rightarrow> GoID \<times> goroutineState \<Rightarrow> (string \<Rightarrow> bool) \<times> Finding list" where
  "transientStep opts st entry =
     (case st of (seen, findings) \<Rightarrow>
      case entry of (gid, g) \<Rightarrow>
        if word_sless (prevLongBlockDuration g) (MinBlock opts) then (seen, findings)
        else if isRuntimeGoroutine (prevLongBlockStack g) then (seen, findings)
        else if seen (prevLongBlockLocation g) then (seen, findings)
        else
          (seen(prevLongBlockLocation g := True),
           findings @
             [\<lparr>Kind = KindLongBlock, Confidence = ConfidenceMedium,
               GoroutineID = gid, BlockedOn = prevLongBlockReason g,
               BlockedFor = prevLongBlockDuration g,
               Stack = prevLongBlockStack g, Function = prevLongBlockFunction g,
               Location = prevLongBlockLocation g\<rparr>]))"

definition detectTransientBlocks :: "goroutines \<Rightarrow> Options \<Rightarrow> Finding list" where
  "detectTransientBlocks gs opts = snd (foldl (transientStep opts) (\<lambda>loc. False, []) gs)"

subsection \<open>Comparing two runs\<close>



section \<open>The standalone analyzer (package main, analyzeTrace)\<close>

text \<open>The repository also holds a standalone program whose \<^verbatim>\<open>analyzeTrace\<close> has its own
  state engine, over a local type \<^verbatim>\<open>goroutineState\<close> of four fields (the names carry
  an \<open>L\<close> here).  Its loop body has two \<^verbatim>\<open>if\<close> statements.\<close>

record goroutineStateL =
  reasonL :: string
  stackL :: string
  blockStartL :: Time
  isBlockedL :: bool

definition zeroStateL :: goroutineStateL where
  "zeroStateL = \<lparr>reasonL = [], stackL = [], blockStartL = 0, isBlockedL = False\<rparr>"

definition applyTransitionL :: "Time \<Rightarrow> StateTransition \<Rightarrow> goroutineStateL \<Rightarrow> goroutineStateL" where
  "applyTransitionL t st g =
     (let g1 = (if Executing (trFrom st) \<and> trTo st = GoWaiting
                then g\<lparr>isBlockedL := True, reasonL := Reason st, blockStartL := t,
                       stackL := concat (map renderFrame (trStack st))\<rparr>
                else g)
      in if trFrom st = GoWaiting \<and> Executing (trTo st)
         then g1\<lparr>isBlockedL := False, reasonL := [], stackL := []\<rparr>
         else g1)"

record engineL =
  goroutinesOfL :: "GoID \<Rightarrow> goroutineStateL option"
  lastTimeL :: Time

definition engineStartL :: engineL where
  "engineStartL = \<lparr>goroutinesOfL = (\<lambda>gid. None), lastTimeL = 0\<rparr>"

definition handleEventL :: "engineL \<Rightarrow> Event \<Rightarrow> engineL" where
  "handleEventL e ev =
     (let e1 = e\<lparr>lastTimeL := evTime ev\<rparr>
      in case evBody ev of
           OtherEvent \<Rightarrow> e1
         | GoroutineTransition st \<Rightarrow>
             (let gid = trGoroutine st;
                  g = (case goroutinesOfL e1 gid of None \<Rightarrow> zeroStateL | Some g0 \<Rightarrow> g0)
              in e1\<lparr>goroutinesOfL := (goroutinesOfL e1)(gid \<mapsto> applyTransitionL (evTime ev) st g)\<rparr>))"

definition runEventsL :: "Event list \<Rightarrow> engineL" where
  "runEventsL evs = foldl handleEventL engineStartL evs"

section \<open>The static lock-release analyzer (internal/static)\<close>

record StaticFinding =
  SFunction :: string
  SLocation :: string
  Message :: string

text \<open>What the analyzer reads of go/ssa.  A call site is an interface call
  (\<^verbatim>\<open>IsInvoke\<close>), a call of a function known statically, with the name that
  \<^verbatim>\<open>fn.String()\<close> gives, or a call of some other value.  A position is resolved by
  the file set to a file name and a line.  A basic block points to its successors;
  here a block is named by its \<^verbatim>\<open>Index\<close>, its place in \<^verbatim>\<open>fn.Blocks\<close>.\<close>

datatype CallCommon = Invoke | StaticCallee string | DynamicValue

record Position =
  Filename :: string
  PosLine :: nat

datatype Instr = Call CallCommon Position | Defer CallCommon | OtherInstr

record BasicBlock =
  Instrs :: "Instr list"
  Succs :: "nat list"

record SsaFunction =
  RelString :: string
  Blocks :: "BasicBlock list"

text \<open>go/ssa builds every successor inside the function, so an index always names
  a block; for an index outside the list the model reads a block without instructions
  and without successors.\<close>

definition blockAt :: "BasicBlock list \<Rightarrow> nat \<Rightarrow> BasicBlock" where
  "blockAt blocks i = (if i < length blocks then blocks ! i else \<lparr>Instrs = [], Succs = []\<rparr>)"

definition calleeFunc :: "CallCommon \<Rightarrow> string option" where
  "calleeFunc c = (case c of Invoke \<Rightarrow> None | StaticCallee name \<Rightarrow> Some name | DynamicValue \<Rightarrow> None)"

definition isLockCall :: "string option \<Rightarrow> bool" where
  "isLockCall fn =
     (case fn of
        None \<Rightarrow> False
      | Some s \<Rightarrow> s = ''(*sync.Mutex).Lock'' \<or> s = ''(*sync.RWMutex).Lock'' \<or>
                  s = ''(*sync.RWMutex).RLock'')"

definition isUnlockCall :: "string option \<Rightarrow> bool" where
  "isUnlockCall fn =
     (case fn of
        None \<Rightarrow> False
      | Some s \<Rightarrow> s = ''(*sync.Mutex).Unlock'' \<or> s = ''(*sync.RWMutex).Unlock'' \<or>
                  s = ''(*sync.RWMutex).RUnlock'')"

record lockSite =
  lsBlock :: nat
  lsIdx :: nat
  lsPos :: Position

text \<open>Phase 1 of \<^verbatim>\<open>analyzeFn\<close>: the lock sites, the indices of the unlock calls of
  every block (a missing key of \<^verbatim>\<open>unlockIdx\<close> reads as the empty list) and whether an
  unlock is deferred.\<close>

record scan =
  lockSites :: "lockSite list"
  unlockIdx :: "nat \<Rightarrow> nat list"
  hasDeferUnlock :: bool

definition scanInstr :: "nat \<Rightarrow> scan \<Rightarrow> nat \<times> Instr \<Rightarrow> scan" where
  "scanInstr bi sc e =
     (case e of (ii, instr) \<Rightarrow>
        case instr of
          Call c p \<Rightarrow>
            (let callee = calleeFunc c
             in if isLockCall callee
                then sc\<lparr>lockSites := lockSites sc @ [\<lparr>lsBlock = bi, lsIdx = ii, lsPos = p\<rparr>]\<rparr>
                else if isUnlockCall callee
                then sc\<lparr>unlockIdx := (unlockIdx sc)(bi := unlockIdx sc bi @ [ii])\<rparr>
                else sc)
        | Defer c \<Rightarrow>
            (if isUnlockCall (calleeFunc c) then sc\<lparr>hasDeferUnlock := True\<rparr> else sc)
        | OtherInstr \<Rightarrow> sc)"

definition scanBlock :: "scan \<Rightarrow> nat \<times> BasicBlock \<Rightarrow> scan" where
  "scanBlock sc e = (case e of (bi, b) \<Rightarrow> foldl (scanInstr bi) sc (enumerate 0 (Instrs b)))"

definition scanFn :: "BasicBlock list \<Rightarrow> scan" where
  "scanFn blocks =
     foldl scanBlock \<lparr>lockSites = [], unlockIdx = (\<lambda>bi. []), hasDeferUnlock = False\<rparr>
       (enumerate 0 blocks)"

fun hasUnlockFrom :: "nat list \<Rightarrow> nat \<Rightarrow> bool" where
  "hasUnlockFrom [] fromIdx = False"
| "hasUnlockFrom (ui # uis) fromIdx = (if fromIdx \<le> ui then True else hasUnlockFrom uis fromIdx)"

definition hasUnlockAfterIdx :: "nat \<Rightarrow> nat \<Rightarrow> (nat \<Rightarrow> nat list) \<Rightarrow> bool" where
  "hasUnlockAfterIdx b fromIdx uidx = hasUnlockFrom (uidx b) fromIdx"

text \<open>The inner loop over the successors of a block: a successor not yet visited is
  marked and appended to the queue.\<close>

fun visitSuccs :: "(nat \<Rightarrow> bool) \<times> nat list \<Rightarrow> nat list \<Rightarrow> (nat \<Rightarrow> bool) \<times> nat list" where
  "visitSuccs vq [] = vq"
| "visitSuccs (visited, queue) (succ # succs) =
     (if \<not> visited succ then visitSuccs (visited(succ := True), queue @ [succ]) succs
      else visitSuccs (visited, queue) succs)"

text \<open>The loop \<^verbatim>\<open>for len(queue) > 0\<close> of \<^verbatim>\<open>pathExistsWithoutUnlock\<close>.\<close>

function bfs :: "BasicBlock list \<Rightarrow> (nat \<Rightarrow> nat list) \<Rightarrow> (nat \<Rightarrow> bool) \<Rightarrow> nat list \<Rightarrow> bool" where
  "bfs blocks uidx visited [] = False"
| "bfs blocks uidx visited (cur # queue) =
     (if uidx cur \<noteq> [] then bfs blocks uidx visited queue
      else if Succs (blockAt blocks cur) = [] then True
      else (case visitSuccs (visited, queue) (Succs (blockAt blocks cur)) of
              (visited', queue') \<Rightarrow> bfs blocks uidx visited' queue'))"
  by pat_completeness auto
termination
proof (relation "measure (\<lambda>(blocks, uidx, visited, queue).
           2 * card {i \<in> (\<Union>b \<in> set blocks. set (Succs b)). \<not> visited i} + length queue)",
       goal_cases)
  case 1
  show ?case by simp
next
  case (2 blocks uidx visited cur queue)
  show ?case by simp
next
  case (3 blocks uidx visited cur queue x xa)
  define U where "U = (\<Union>b \<in> set blocks. set (Succs b))"
  have finU: "finite U" unfolding U_def by simp
  have step: "set ss \<subseteq> U \<Longrightarrow> visitSuccs (v, q) ss = (v', q') \<Longrightarrow>
        2 * card {i \<in> U. \<not> v' i} + length q' \<le> 2 * card {i \<in> U. \<not> v i} + length q"
    for ss v q v' q'
  proof (induction ss arbitrary: v q)
    case Nil
    then show ?case by simp
  next
    case (Cons s ss)
    show ?case
    proof (cases "v s")
      case True
      with Cons show ?thesis by simp
    next
      case False
      with Cons.prems have r: "visitSuccs (v(s := True), q @ [s]) ss = (v', q')" by simp
      have sU: "s \<in> U" using Cons.prems by simp
      have eq: "{i \<in> U. \<not> (v(s := True)) i} = {i \<in> U. \<not> v i} - {s}" by auto
      have "s \<in> {i \<in> U. \<not> v i}" using sU False by simp
      moreover have "finite {i \<in> U. \<not> v i}" using finU by simp
      ultimately have "card {i \<in> U. \<not> (v(s := True)) i} + 1 = card {i \<in> U. \<not> v i}"
        unfolding eq using card_Suc_Diff1 [of "{i \<in> U. \<not> v i}" s] by simp
      moreover have "2 * card {i \<in> U. \<not> v' i} + length q'
             \<le> 2 * card {i \<in> U. \<not> (v(s := True)) i} + length (q @ [s])"
        using Cons.IH [OF _ r] Cons.prems by simp
      ultimately show ?thesis by simp
    qed
  qed
  have inr: "cur < length blocks"
    using 3(2) by (auto simp: blockAt_def split: if_splits)
  then have "blocks ! cur \<in> set blocks" by simp
  then have "set (Succs (blocks ! cur)) \<subseteq> U"
    unfolding U_def by blast
  then have "set (Succs (blockAt blocks cur)) \<subseteq> U"
    using inr by (simp add: blockAt_def)
  from step [OF this 3(3) [symmetric]] show ?case
    unfolding U_def by simp
qed

definition pathExistsWithoutUnlock :: "SsaFunction \<Rightarrow> lockSite \<Rightarrow> (nat \<Rightarrow> nat list) \<Rightarrow> bool" where
  "pathExistsWithoutUnlock fn ls uidx =
     (if hasUnlockAfterIdx (lsBlock ls) (lsIdx ls + 1) uidx then False
      else (case visitSuccs (\<lambda>i. False, []) (Succs (blockAt (Blocks fn) (lsBlock ls))) of
              (visited, queue) \<Rightarrow> bfs (Blocks fn) uidx visited queue))"

text \<open>Phase 2 of \<^verbatim>\<open>analyzeFn\<close>: one finding for every lock site that has such a path.\<close>

fun reportSites :: "SsaFunction \<Rightarrow> (nat \<Rightarrow> nat list) \<Rightarrow> StaticFinding list \<Rightarrow> lockSite list \<Rightarrow> StaticFinding list" where
  "reportSites fn uidx findings [] = findings"
| "reportSites fn uidx findings (ls # sites) =
     (if pathExistsWithoutUnlock fn ls uidx
      then reportSites fn uidx
             (findings @
               [\<lparr>SFunction = RelString fn,
                 SLocation = Filename (lsPos ls) @ '':'' @ showNat (PosLine (lsPos ls)),
                 Message = ''mutex Lock() acquired but not released on all exit paths''\<rparr>])
             sites
      else reportSites fn uidx findings sites)"

definition analyzeFn :: "SsaFunction \<Rightarrow> StaticFinding list" where
  "analyzeFn fn =
     (if Blocks fn = [] then []
      else (let sc = scanFn (Blocks fn)
            in if lockSites sc = [] \<or> hasDeferUnlock sc then []
               else reportSites fn (unlockIdx sc) [] (lockSites sc)))"

subsection \<open>The claim about analyzeFn, in the words of the specification\<close>

text \<open>A block passes through an unlock when one of its instructions is a call of an
  unlock function; a function has a deferred unlock when one of its instructions defers
  one.  A path from a lock site is the list of the blocks after the lock's own block:
  each is a successor of the one before and passes through no unlock, and the last block
  of the path (the lock's own block when the list is empty) has no successors.\<close>

definition spec_unlock_instr :: "Instr \<Rightarrow> bool" where
  "spec_unlock_instr i = (case i of Call c p \<Rightarrow> isUnlockCall (calleeFunc c) | Defer c \<Rightarrow> False | OtherInstr \<Rightarrow> False)"

definition spec_deferred_unlock :: "SsaFunction \<Rightarrow> bool" where
  "spec_deferred_unlock fn =
     list_ex (\<lambda>b. list_ex (\<lambda>i. case i of Defer c \<Rightarrow> isUnlockCall (calleeFunc c) | Call c p \<Rightarrow> False | OtherInstr \<Rightarrow> False)
                   (Instrs b)) (Blocks fn)"

fun spec_path_to_exit :: "BasicBlock list \<Rightarrow> nat \<Rightarrow> nat list \<Rightarrow> bool" where
  "spec_path_to_exit blocks b [] = (Succs (blockAt blocks b) = [])"
| "spec_path_to_exit blocks b (n # rest) =
     (n \<in> set (Succs (blockAt blocks b)) \<and>
      \<not> list_ex spec_unlock_instr (Instrs (blockAt blocks n)) \<and>
      spec_path_to_exit blocks n rest)"

definition spec_unlock_free_path :: "SsaFunction \<Rightarrow> lockSite \<Rightarrow> nat list \<Rightarrow> bool" where
  "spec_unlock_free_path fn ls path =
     (\<not> spec_deferred_unlock fn \<and>
      \<not> list_ex spec_unlock_instr (drop (lsIdx ls + 1) (Instrs (blockAt (Blocks fn) (lsBlock ls)))) \<and>
      spec_path_to_exit (Blocks fn) (lsBlock ls) path)"

text \<open>For the proof that the search finds these paths: a block is good with a path when
  it passes through no unlock and the path leads from it to an exit; the invariant of
  the loop says that the queue holds visited blocks only and that every good block
  already taken from the queue has left a good block with a shorter path in the queue.\<close>

definition bfs_good :: "BasicBlock list \<Rightarrow> nat \<Rightarrow> nat list \<Rightarrow> bool" where
  "bfs_good blocks n rest =
     (\<not> list_ex spec_unlock_instr (Instrs (blockAt blocks n)) \<and> spec_path_to_exit blocks n rest)"

definition bfs_inv :: "BasicBlock list \<Rightarrow> (nat \<Rightarrow> bool) \<Rightarrow> nat list \<Rightarrow> bool" where
  "bfs_inv blocks visited queue =
     ((\<forall>q \<in> set queue. visited q) \<and>
      (\<forall>n rest. visited n \<and> n \<notin> set queue \<and> bfs_good blocks n rest \<longrightarrow>
         (\<exists>m \<in> set queue. \<exists>rest'. bfs_good blocks m rest' \<and> length rest' < length rest)))"

section \<open>Adding the static findings to the result (cmd/run.go)\<close>

text \<open>The struct literal of \<^verbatim>\<open>runRun\<close>; the fields it leaves out hold their zero
  values.\<close>

definition staticToFinding :: "StaticFinding \<Rightarrow> Finding" where
  "staticToFinding sf =
     \<lparr>Kind = KindLockLeak, Confidence = ConfidenceLow, GoroutineID = 0,
      BlockedOn = Message sf, BlockedFor = 0, Stack = [],
      Function = SFunction sf, Location = SLocation sf\<rparr>"

definition appendStatic :: "Result \<Rightarrow> StaticFinding list \<Rightarrow> Result" where
  "appendStatic result staticFindings =
     foldl (\<lambda>r sf. r\<lparr>Findings := Findings r @ [staticToFinding sf]\<rparr>) result staticFindings"

section \<open>The structured output (internal/reporter/json.go)\<close>

text \<open>\<^verbatim>\<open>time.Duration.Round\<close> and \<^verbatim>\<open>Milliseconds\<close>: Go divides signed integers
  towards zero.\<close>

definition lessThanHalf :: "Duration \<Rightarrow> Duration \<Rightarrow> bool" where
  "lessThanHalf x y = (x + x < y)"

definition Round :: "Duration \<Rightarrow> Duration \<Rightarrow> Duration" where
  "Round d m =
     (if word_sle m 0 then d
      else
        (let r = (word_of_int (sint d smod sint m) :: Duration)
         in if word_sless d 0
            then (let r' = - r
                  in if lessThanHalf r' m then d + r'
                     else (let d1 = d - m + r'
                           in if word_sless d1 d then d1 else - (2 ^ 63)))
            else if lessThanHalf r m then d - r
            else (let d1 = d + m - r
                  in if word_sless d d1 then d1 else 2 ^ 63 - 1)))"

definition Milliseconds :: "Duration \<Rightarrow> 64 word" where
  "Milliseconds d = word_of_int (sint d sdiv 1000000)"

text \<open>A JSON document as encoding/json writes it: the members of an object in the
  order of the struct's fields, a member tagged \<^verbatim>\<open>omitempty\<close> left out when its
  string is empty.  \<open>JString s\<close> stands for the JSON string that the encoder writes for
  the Go string \<open>s\<close>: the escaping of characters, and the replacement of bytes that are
  not valid UTF-8 by U+FFFD, happen inside the encoder and are not modelled.\<close>

datatype jsonValue =
    JString string
  | JNumber int
  | JArray "jsonValue list"
  | JObject "(string \<times> jsonValue) list"

record jsonFinding =
  jKind :: string
  jConfidence :: string
  jGoroutineID :: "64 word"
  jBlockedOn :: string
  jBlockedForMs :: "64 word"
  jFunction :: string
  jLocation :: string
  jStack :: string
  jExplanation :: string

definition omitempty :: "string \<Rightarrow> string \<Rightarrow> (string \<times> jsonValue) list" where
  "omitempty key v = (if v = [] then [] else [(key, JString v)])"

definition marshalFinding :: "jsonFinding \<Rightarrow> jsonValue" where
  "marshalFinding jf =
     JObject
       ([(''kind'', JString (jKind jf)),
         (''confidence'', JString (jConfidence jf)),
         (''goroutine_id'', JNumber (uint (jGoroutineID jf))),
         (''blocked_on'', JString (jBlockedOn jf)),
         (''blocked_for_ms'', JNumber (sint (jBlockedForMs jf)))]
        @ omitempty ''function'' (jFunction jf)
        @ omitempty ''location'' (jLocation jf)
        @ omitempty ''stack'' (jStack jf)
        @ omitempty ''explanation'' (jExplanation jf))"

text \<open>The first loop of \<^verbatim>\<open>WriteJSON\<close>.\<close>

definition convertStep :: "string \<Rightarrow> jsonFinding list \<Rightarrow> Finding \<Rightarrow> jsonFinding list" where
  "convertStep explanation reportFindings f =
     (let jf = \<lparr>jKind = Kind f, jConfidence = Confidence f, jGoroutineID = GoroutineID f,
                jBlockedOn = BlockedOn f,
                jBlockedForMs = Milliseconds (Round (BlockedFor f) Millisecond),
                jFunction = Function f, jLocation = Location f, jStack = Stack f,
                jExplanation = []\<rparr>;
          jf' = (if explanation \<noteq> [] \<and> length reportFindings = 0
                 then jf\<lparr>jExplanation := explanation\<rparr> else jf)
      in reportFindings @ [jf'])"

definition WriteJSON :: "Result \<Rightarrow> string \<Rightarrow> jsonValue" where
  "WriteJSON result explanation =
     (let reportFindings = foldl (convertStep explanation) [] (Findings result);
          outFindings = map (\<lambda>jf. jf\<lparr>jExplanation := []\<rparr>) reportFindings
      in JObject
           ([(''trace_file'', JString (TraceFile result)),
             (''duration_ms'', JNumber (sint (DurationMs result))),
             (''goroutines_analyzed'', JNumber (int (GoroutinesAnalyzed result))),
             (''findings'', JArray (map marshalFinding outFindings))]
            @ omitempty ''llm_explanation'' explanation))"

text \<open>Reading a document: the value of a member of an object, and the array under
  \<^verbatim>\<open>findings\<close>.\<close>

definition jsonMember :: "jsonValue \<Rightarrow> string \<Rightarrow> jsonValue option" where
  "jsonMember v key = (case v of JObject kvs \<Rightarrow> map_of kvs key | JString s \<Rightarrow> None | JNumber n \<Rightarrow> None | JArray vs \<Rightarrow> None)"

definition findingsOf :: "jsonValue \<Rightarrow> jsonValue list" where
  "findingsOf v = (case jsonMember v ''findings'' of Some (JArray vs) \<Rightarrow> vs | _ \<Rightarrow> [])"

section \<open>Concrete stacks, snapshots, traces and functions\<close>

text \<open>A runtime frame whose file path holds the text \<^verbatim>\<open>testing.\<close>, and the frame of
  the test runner.\<close>

definition ex_path_stack :: string where
  "ex_path_stack = ''      runtime.gopark (/opt/testing.d/src/runtime/proc.go:398)'' @ [CHR 0x0A]"

definition ex_test_stack :: string where
  "ex_test_stack = ''      testing.tRunner (/go/src/testing/testing.go:1792)'' @ [CHR 0x0A]"

text \<open>A goroutine started by the test runner and blocked in user code on a channel
  receive, and the options with the default \<^verbatim>\<open>min-block\<close> of one second.\<close>

definition ex_user_stack :: string where
  "ex_user_stack = ''      main.worker (/app/main.go:42)'' @ [CHR 0x0A]"

definition ex_chan_goroutine :: goroutineState where
  "ex_chan_goroutine =
     zeroState\<lparr>isBlocked := True, reason := ''chan receive'', stack := ex_user_stack,
               function' := ''main.worker'', location := ''/app/main.go:42'',
               blockStart := 100, creationSeen := True, creationStack := ex_test_stack\<rparr>"

definition ex_chan_finding :: Finding where
  "ex_chan_finding =
     \<lparr>Kind = ''goroutine_leak'', Confidence = ''high'', GoroutineID = 18,
      BlockedOn = ''chan receive'', BlockedFor = 300000000, Stack = ex_user_stack,
      Function = ''main.worker'', Location = ''/app/main.go:42''\<rparr>"

definition ex_options :: Options where
  "ex_options = \<lparr>MinBlock = 1000000000, DebugFiltered = False\<rparr>"

text \<open>A goroutine that was created in user code and never ran, and the finding of the
  orphan detector for it on a trace of 120 ms.\<close>

definition ex_creation_stack :: string where
  "ex_creation_stack = ''      main.TestSpawn (/app/h.go:3)'' @ [CHR 0x0A]"

definition ex_orphan :: goroutineState where
  "ex_orphan =
     zeroState\<lparr>creationSeen := True, creationStack := ex_creation_stack,
               creationFunction := ''main.TestSpawn'', creationLocation := ''/app/h.go:3''\<rparr>"

definition ex_orphan_finding :: Finding where
  "ex_orphan_finding =
     \<lparr>Kind = ''goroutine_leak'', Confidence = ''low'', GoroutineID = 7,
      BlockedOn = ''never ran (test exited before goroutine was scheduled)'',
      BlockedFor = 120000000, Stack = ex_creation_stack,
      Function = ''main.TestSpawn'', Location = ''/app/h.go:3''\<rparr>"

text \<open>Events: a goroutine running \<^verbatim>\<open>main.worker\<close> blocks, and a blocked goroutine is
  made runnable.  In \<open>ex_sync_trace\<close> the goroutines 1 and 2 wait on a mutex at the
  same line for two seconds and are then woken; \<open>ex_sync_goroutine\<close> is the record
  that the engine of \<^verbatim>\<open>Analyze\<close> holds for each of them at the end.  In
  \<open>ex_wake_trace\<close> goroutine 5 blocks on a channel receive and is woken through
  \<^verbatim>\<open>Runnable\<close>.\<close>

definition ex_frame :: StackFrame where
  "ex_frame = \<lparr>Func = ''main.worker'', File = ''/app/main.go'', Line = 42\<rparr>"

definition ex_block :: "GoID \<Rightarrow> string \<Rightarrow> Time \<Rightarrow> Event" where
  "ex_block gid why t =
     \<lparr>evTime = t,
      evBody = GoroutineTransition
        \<lparr>trGoroutine = gid, trFrom = GoRunning, trTo = GoWaiting, Reason = why,
         trStack = [ex_frame]\<rparr>\<rparr>"

definition ex_wake :: "GoID \<Rightarrow> Time \<Rightarrow> Event" where
  "ex_wake gid t =
     \<lparr>evTime = t,
      evBody = GoroutineTransition
        \<lparr>trGoroutine = gid, trFrom = GoWaiting, trTo = GoRunnable, Reason = [],
         trStack = []\<rparr>\<rparr>"


definition ex_sync_goroutine :: goroutineState where
  "ex_sync_goroutine =
     zeroState\<lparr>prevLongBlockReason := ''sync'',
       prevLongBlockStack := ex_user_stack,
       prevLongBlockFunction := ''main.worker'',
       prevLongBlockLocation := ''/app/main.go:42'',
       prevLongBlockDuration := 2000000000,
       syncHistory := (syncHistory zeroState)
         [0 := \<lparr>entryLocation = ''/app/main.go:42'', endTime = 2000000000\<rparr>],
       syncHistoryIdx := 1, prevSyncLocation := ''/app/main.go:42'',
       prevSyncEndTime := 2000000000\<rparr>"

definition ex_sync_finding :: "GoID \<Rightarrow> Finding" where
  "ex_sync_finding gid =
     \<lparr>Kind = ''long_block'', Confidence = ''medium'', GoroutineID = gid,
      BlockedOn = ''sync'', BlockedFor = 2000000000, Stack = ex_user_stack,
      Function = ''main.worker'', Location = ''/app/main.go:42''\<rparr>"

definition ex_wake_trace :: "Event list" where
  "ex_wake_trace = [ex_block 5 ''chan receive'' 10, ex_wake 5 20]"

text \<open>Two functions in SSA form.  \<^verbatim>\<open>Touch\<close> is one block: it locks and returns.
  \<^verbatim>\<open>Get\<close> locks and branches; one branch returns, the other unlocks and returns.\<close>

definition ex_pos :: Position where
  "ex_pos = \<lparr>Filename = ''/app/cache.go'', PosLine = 12\<rparr>"

definition ex_lock_site :: lockSite where
  "ex_lock_site = \<lparr>lsBlock = 0, lsIdx = 0, lsPos = ex_pos\<rparr>"

definition ex_lock_only :: SsaFunction where
  "ex_lock_only =
     \<lparr>RelString = ''cache.(*Cache).Touch'',
      Blocks =
        [\<lparr>Instrs = [Call (StaticCallee ''(*sync.Mutex).Lock'') ex_pos, OtherInstr],
          Succs = []\<rparr>]\<rparr>"

definition ex_lock_branch :: SsaFunction where
  "ex_lock_branch =
     \<lparr>RelString = ''cache.(*Cache).Get'',
      Blocks =
        [\<lparr>Instrs = [Call (StaticCallee ''(*sync.Mutex).Lock'') ex_pos, OtherInstr],
          Succs = [1, 2]\<rparr>,
         \<lparr>Instrs = [OtherInstr], Succs = []\<rparr>,
         \<lparr>Instrs = [Call (StaticCallee ''(*sync.Mutex).Unlock'') ex_pos, OtherInstr],
          Succs = []\<rparr>]\<rparr>"

text \<open>The static finding for \<^verbatim>\<open>Get\<close>, a result without findings, and the JSON object
  written for that static finding.\<close>

definition ex_static :: StaticFinding where
  "ex_static =
     \<lparr>SFunction = ''cache.(*Cache).Get'', SLocation = ''/app/cache.go:12'',
      Message = ''mutex Lock() acquired but not released on all exit paths''\<rparr>"

definition ex_result :: Result where
  "ex_result =
     \<lparr>TraceFile = ''trace.out'', DurationMs = 300, GoroutinesAnalyzed = 4, Findings = []\<rparr>"

definition ex_static_json :: jsonValue where
  "ex_static_json =
     JObject
       [(''kind'', JString ''lock_leak''), (''confidence'', JString ''low''),
        (''goroutine_id'', JNumber 0),
        (''blocked_on'', JString ''mutex Lock() acquired but not released on all exit paths''),
        (''blocked_for_ms'', JNumber 0),
        (''function'', JString ''cache.(*Cache).Get''),
        (''location'', JString ''/app/cache.go:12'')]"

section \<open>The stack classifier\<close>

lemma HasPrefix_prefix: "HasPrefix s pre \<longleftrightarrow> prefix pre s"
  unfolding HasPrefix_def prefix_def by (metis append_eq_conv_conj)

lemma Contains_iff_sublist: "Contains s sub \<longleftrightarrow> sublist sub s"
  by (induction s) (auto simp: HasPrefix_prefix sublist_Cons_right)

lemma Split_hd_prefix: "\<exists>p ps. Split s sep = p # ps \<and> prefix p s"
proof (induction s)
  case Nil
  then show ?case by simp
next
  case (Cons c cs)
  then obtain p ps where "Split cs sep = p # ps" "prefix p cs" by blast
  then show ?case by simp
qed

lemma Split_sublist: "piece \<in> set (Split s sep) \<Longrightarrow> sublist piece s"
proof (induction s arbitrary: piece)
  case Nil
  then show ?case by simp
next
  case (Cons c cs)
  show ?case
  proof (cases "c = sep")
    case True
    with Cons.prems have "piece = [] \<or> piece \<in> set (Split cs sep)" by simp
    then show ?thesis using Cons.IH by (auto simp: sublist_Cons_right)
  next
    case False
    obtain p ps where sp: "Split cs sep = p # ps" and pre: "prefix p cs"
      using Split_hd_prefix [of cs sep] by blast
    with False Cons.prems have "piece = c # p \<or> piece \<in> set ps" by simp
    then show ?thesis
    proof
      assume "piece = c # p"
      then show ?thesis using pre by (simp add: prefix_imp_sublist)
    next
      assume "piece \<in> set ps"
      then have "sublist piece cs" using Cons.IH sp by simp
      then show ?thesis by (simp add: sublist_Cons_right)
    qed
  qed
qed

lemma TrimLeftSpace_suffix: "suffix (TrimLeftSpace s) s"
proof (induction s rule: TrimLeftSpace.induct)
  case (1 s)
  show ?case
  proof (cases "leadingSpace s = 0")
    case True
    then show ?thesis by simp
  next
    case False
    from "1.IH" [OF False] have "suffix (TrimLeftSpace (drop (leadingSpace s) s)) s"
      by (meson suffix_drop suffix_order.order_trans)
    with False show ?thesis by simp
  qed
qed

lemma TrimRightSpace_prefix: "prefix (TrimRightSpace s) s"
proof (induction s rule: TrimRightSpace.induct)
  case (1 s)
  show ?case
  proof (cases "trailingSpace s = 0")
    case True
    then show ?thesis by simp
  next
    case False
    from "1.IH" [OF False]
    have "prefix (TrimRightSpace (take (length s - trailingSpace s) s)) s"
      by (meson take_is_prefix prefix_order.order_trans)
    with False show ?thesis by simp
  qed
qed

lemma TrimSpace_sublist: "sublist (TrimSpace s) s"
  unfolding TrimSpace_def
  by (meson TrimLeftSpace_suffix TrimRightSpace_prefix prefix_imp_sublist
      suffix_imp_sublist sublist_order.order_trans)

text \<open>A frame whose function begins with \<^verbatim>\<open>testing.\<close> puts that text into the
  rendered stack.\<close>

lemma testing_function_Contains:
  assumes "spec_has_testing_function stk"
  shows "Contains stk ''testing.''"
proof -
  from assms obtain raw where raw: "raw \<in> set (Split stk CHR 0x0A)"
    and pre: "HasPrefix (spec_frame_function (TrimSpace raw)) ''testing.''"
    by (auto simp: spec_has_testing_function_def spec_frames_def list_ex_iff)
  have "prefix (spec_frame_function (TrimSpace raw)) (TrimSpace raw)"
    unfolding spec_frame_function_def by (rule takeWhile_is_prefix)
  then have "prefix ''testing.'' (TrimSpace raw)"
    using pre by (meson HasPrefix_prefix prefix_order.order_trans)
  then have "sublist ''testing.'' (TrimSpace raw)" by (rule prefix_imp_sublist)
  then have "sublist ''testing.'' raw"
    using TrimSpace_sublist sublist_order.order_trans by blast
  then have "sublist ''testing.'' stk"
    using Split_sublist [OF raw] sublist_order.order_trans by blast
  then show ?thesis by (simp add: Contains_iff_sublist)
qed

text \<open>One direction of C2 holds: a stack that \<^const>\<open>isNonTestRuntimeGoroutine\<close> accepts is
  runtime-only and has no frame whose function begins with \<^verbatim>\<open>testing.\<close>; and the empty
  stack is runtime-only.\<close>

lemma nontest_runtime_sound:
  "isNonTestRuntimeGoroutine stk \<Longrightarrow>
     isRuntimeGoroutine stk \<and> \<not> spec_has_testing_function stk"
  using testing_function_Contains [of stk]
  by (auto simp: isNonTestRuntimeGoroutine_def split: if_splits)

lemma isRuntimeGoroutine_empty: "isRuntimeGoroutine []"
  by (simp add: isRuntimeGoroutine_def)

lemma ex_test_stack_testing:
  "spec_has_testing_function ex_test_stack \<and> isRuntimeGoroutine ex_test_stack \<and>
   \<not> isNonTestRuntimeGoroutine ex_test_stack"
  by code_simp

text \<open>C2 fails in \<^const>\<open>isNonTestRuntimeGoroutine\<close>, in the other direction: the stack
  \<^const>\<open>ex_path_stack\<close> is runtime-only and its one frame, \<^verbatim>\<open>runtime.gopark\<close>, is not a
  \<^verbatim>\<open>testing.\<close> function, so by the claim the stack is non-test-runtime-only; the code
  answers false, because it searches the whole rendered string for the text
  \<^verbatim>\<open>testing.\<close> and finds it in the file path of the frame.\<close>

theorem C2_path_text_taken_for_testing_frame:
  "isRuntimeGoroutine ex_path_stack \<and>
   \<not> spec_has_testing_function ex_path_stack \<and>
   \<not> isNonTestRuntimeGoroutine ex_path_stack"
  by code_simp

section \<open>Leaks and long blocks\<close>

lemma ex_user_stack_user: "\<not> isRuntimeGoroutine ex_user_stack"
  by code_simp

lemma ex_test_stack_owned: "\<not> isNonTestRuntimeGoroutine ex_test_stack"
  by code_simp

text \<open>One round of the loop appends what section 4.4 asks for.\<close>

lemma leakStep_spec:
  "leakStep lastT opts findings e =
     findings @ (case spec_leak_finding lastT opts e of None \<Rightarrow> [] | Some f \<Rightarrow> [f])"
  by (cases e)
     (auto simp: leakStep_def spec_leak_finding_def spec_provenance_ok_def Nanosecond_def
        Let_def word_sless_alt word_sle_eq)

lemma foldl_leakStep:
  "foldl (leakStep lastT opts) findings gs =
     findings @ List.map_filter (spec_leak_finding lastT opts) gs"
proof (induction gs arbitrary: findings)
  case Nil
  show ?case by (simp add: List.map_filter_simps)
next
  case (Cons e gs)
  have "foldl (leakStep lastT opts) findings (e # gs) =
          foldl (leakStep lastT opts) (leakStep lastT opts findings e) gs"
    by simp
  also have "\<dots> = leakStep lastT opts findings e @
                     List.map_filter (spec_leak_finding lastT opts) gs"
    by (rule Cons.IH)
  also have "\<dots> = findings @ List.map_filter (spec_leak_finding lastT opts) (e # gs)"
    by (simp add: leakStep_spec List.map_filter_simps split: option.split)
  finally show ?case .
qed

lemma map_filter_mem: "f \<in> set (List.map_filter h xs) \<longleftrightarrow> (\<exists>x \<in> set xs. h x = Some f)"
  by (induction xs) (auto simp: List.map_filter_simps split: option.splits)

text \<open>C1: over the snapshot, in the order of the iteration, \<^const>\<open>detectLeaks\<close> emits for
  every goroutine exactly the finding of section 4.4 (\<^const>\<open>spec_leak_finding\<close>), and
  nothing else: none unless \<open>is_blocked\<close>; none when the blocking stack is runtime-only or
  the reason is \<^verbatim>\<open>sleep\<close>; for the two channel reasons a \<^verbatim>\<open>GoroutineLeak\<close> of high
  confidence when the creation was seen and the creation stack is not
  non-test-runtime-only, whatever the duration; for \<^verbatim>\<open>sync\<close> no provenance filter; for
  every other reason the provenance filter of the channels; and outside the channels a
  \<^verbatim>\<open>LongBlock\<close> of medium confidence only when \<open>last_time - block_start\<close> is at least
  \<open>min_block\<close>.\<close>

theorem C1_detectLeaks_spec:
  "detectLeaks gs lastT opts = List.map_filter (spec_leak_finding lastT opts) gs"
  by (simp add: detectLeaks_def foldl_leakStep)

text \<open>C1 at a snapshot of one goroutine blocked on a channel receive.\<close>

theorem C1_detectLeaks_spec_witness:
  "detectLeaks [(18, ex_chan_goroutine)] 300000100 ex_options = [ex_chan_finding]"
  using C1_detectLeaks_spec [of "[(18, ex_chan_goroutine)]" 300000100 ex_options]
  by (simp add: List.map_filter_simps spec_leak_finding_def spec_provenance_ok_def
      ex_chan_goroutine_def zeroState_def ex_user_stack_user ex_test_stack_owned
      KindGoroutineLeak_def ConfidenceHigh_def ex_chan_finding_def)

text \<open>C8: a finding of \<^const>\<open>detectLeaks\<close> whose \<open>blocked_on\<close> is \<^verbatim>\<open>chan send\<close> or
  \<^verbatim>\<open>chan receive\<close> is a \<^verbatim>\<open>GoroutineLeak\<close> of high confidence, and the record of its
  goroutine in the snapshot is blocked, has one of these two reasons and a blocking
  stack that is not runtime-only.\<close>

theorem C8_chan_finding_state:
  assumes "f \<in> set (detectLeaks gs lastT opts)"
    and "BlockedOn f = ''chan send'' \<or> BlockedOn f = ''chan receive''"
  shows "\<exists>g. (GoroutineID f, g) \<in> set gs \<and> isBlocked g \<and>
             (reason g = ''chan send'' \<or> reason g = ''chan receive'') \<and>
             \<not> isRuntimeGoroutine (stack g) \<and>
             Kind f = KindGoroutineLeak \<and> Confidence f = ConfidenceHigh"
proof -
  from assms(1) have "f \<in> set (List.map_filter (spec_leak_finding lastT opts) gs)"
    using foldl_leakStep [of lastT opts "[]" gs] by (simp add: detectLeaks_def)
  then obtain gid g where mem: "(gid, g) \<in> set gs"
    and sp: "spec_leak_finding lastT opts (gid, g) = Some f"
    by (auto simp: map_filter_mem)
  from sp have b: "isBlocked g" and r: "\<not> isRuntimeGoroutine (stack g)"
    and fid: "GoroutineID f = gid" and bo: "BlockedOn f = reason g"
    by (auto simp: spec_leak_finding_def Let_def split: if_splits)
  from assms(2) bo have ch: "reason g = ''chan send'' \<or> reason g = ''chan receive''"
    by simp
  with sp b r have "Kind f = KindGoroutineLeak \<and> Confidence f = ConfidenceHigh"
    by (auto simp: spec_leak_finding_def Let_def split: if_splits)
  with mem b r ch fid show ?thesis by blast
qed

text \<open>C8 at the finding for goroutine 18.\<close>

theorem C8_chan_finding_state_witness:
  "\<exists>g. (18, g) \<in> set [(18, ex_chan_goroutine)] \<and> isBlocked g \<and>
        (reason g = ''chan send'' \<or> reason g = ''chan receive'') \<and>
        \<not> isRuntimeGoroutine (stack g)"
proof -
  have d: "detectLeaks [(18, ex_chan_goroutine)] 300000100 ex_options = [ex_chan_finding]"
    by (simp add: detectLeaks_def leakStep_def ex_chan_goroutine_def zeroState_def
      ex_user_stack_user ex_test_stack_owned KindGoroutineLeak_def ConfidenceHigh_def
      Nanosecond_def ex_chan_finding_def)
  have m: "ex_chan_finding \<in> set (detectLeaks [(18, ex_chan_goroutine)] 300000100 ex_options)"
    unfolding d by simp
  have c: "BlockedOn ex_chan_finding = ''chan send'' \<or> BlockedOn ex_chan_finding = ''chan receive''"
    by (simp add: ex_chan_finding_def)
  from C8_chan_finding_state [OF m c] show ?thesis by (simp add: ex_chan_finding_def)
qed

section \<open>Orphans\<close>

lemma ex_creation_stack_user: "\<not> isRuntimeGoroutine ex_creation_stack"
  by code_simp

lemma ex_orphans_short:
  "detectOrphans [(7, ex_orphan)] 120000000 = [ex_orphan_finding]"
  by (simp add: detectOrphans_def orphanStep_def ex_orphan_def zeroState_def
      ex_orphan_finding_def Millisecond_def isNonTestRuntimeGoroutine_def
      ex_creation_stack_user KindGoroutineLeak_def ConfidenceLow_def)

text \<open>Every finding that the loop adds is built from the creation fields of a
  goroutine of the snapshot.\<close>

lemma orphanStep_mem:
  "f \<in> set (foldl (orphanStep d) acc gs) \<Longrightarrow>
     f \<in> set acc \<or>
     (\<exists>gid g. (gid, g) \<in> set gs \<and>
        f = \<lparr>Kind = KindGoroutineLeak, Confidence = ConfidenceLow, GoroutineID = gid,
             BlockedOn = ''never ran (test exited before goroutine was scheduled)'',
             BlockedFor = d, Stack = creationStack g, Function = creationFunction g,
             Location = creationLocation g\<rparr>)"
proof (induction gs arbitrary: acc)
  case Nil
  then show ?case by simp
next
  case (Cons e gs)
  obtain gid g where e: "e = (gid, g)" by (cases e)
  from Cons.prems have "f \<in> set (foldl (orphanStep d) (orphanStep d acc e) gs)" by simp
  from Cons.IH [OF this] show ?case
    unfolding e by (fastforce simp: orphanStep_def Let_def split: if_splits)
qed

text \<open>C5: when the trace lasts 200 ms (200000000 ns) or more, \<^const>\<open>detectOrphans\<close>
  returns no finding; every finding it returns is a \<^verbatim>\<open>GoroutineLeak\<close> of low confidence,
  and the trace then lasts strictly less than 200 ms.\<close>

theorem C5_orphans_only_short_traces:
  "(word_sle 200000000 traceDuration \<longrightarrow> detectOrphans gs traceDuration = []) \<and>
   (\<forall>f \<in> set (detectOrphans gs traceDuration).
      word_sless traceDuration 200000000 \<and>
      Kind f = KindGoroutineLeak \<and> Confidence f = ConfidenceLow)"
proof (intro conjI impI ballI)
  assume "word_sle 200000000 traceDuration"
  then show "detectOrphans gs traceDuration = []"
    by (simp add: detectOrphans_def Millisecond_def)
next
  fix f assume f: "f \<in> set (detectOrphans gs traceDuration)"
  then have short: "\<not> word_sle 200000000 traceDuration"
    by (auto simp: detectOrphans_def Millisecond_def split: if_splits)
  then show "word_sless traceDuration 200000000"
    by (simp add: word_sless_alt word_sle_eq)
  from f short have "f \<in> set (foldl (orphanStep traceDuration) [] gs)"
    by (simp add: detectOrphans_def Millisecond_def)
  from orphanStep_mem [OF this] show "Kind f = KindGoroutineLeak" "Confidence f = ConfidenceLow"
    by auto
qed

text \<open>C5 on a goroutine that never ran: no finding on a trace of 250 ms, one on a
  trace of 120 ms.\<close>

theorem C5_orphans_only_short_traces_witness:
  "detectOrphans [(7, ex_orphan)] 250000000 = [] \<and>
   word_sless (120000000 :: Duration) 200000000 \<and>
   Kind ex_orphan_finding = KindGoroutineLeak \<and> Confidence ex_orphan_finding = ConfidenceLow"
proof -
  have long: "word_sle (200000000 :: Duration) 250000000" by simp
  have m: "ex_orphan_finding \<in> set (detectOrphans [(7, ex_orphan)] 120000000)"
    by (simp add: ex_orphans_short)
  from C5_orphans_only_short_traces [of 250000000 "[(7, ex_orphan)]"] long
  have a: "detectOrphans [(7, ex_orphan)] 250000000 = []" by blast
  from C5_orphans_only_short_traces [of 120000000 "[(7, ex_orphan)]"] m
  have "word_sless (120000000 :: Duration) 200000000 \<and>
        Kind ex_orphan_finding = KindGoroutineLeak \<and> Confidence ex_orphan_finding = ConfidenceLow"
    by blast
  with a show ?thesis by blast
qed

text \<open>C10: a finding of \<^const>\<open>detectOrphans\<close> has the whole duration of the trace as
  \<open>blocked_for\<close>, and its stack, function and location are the creation stack, creation
  function and creation location of its goroutine in the snapshot.\<close>

theorem C10_orphan_fields:
  assumes "f \<in> set (detectOrphans gs traceDuration)"
  shows "BlockedFor f = traceDuration \<and>
         (\<exists>g. (GoroutineID f, g) \<in> set gs \<and> Stack f = creationStack g \<and>
               Function f = creationFunction g \<and> Location f = creationLocation g)"
proof -
  from assms have "f \<in> set (foldl (orphanStep traceDuration) [] gs)"
    by (auto simp: detectOrphans_def split: if_splits)
  from orphanStep_mem [OF this] show ?thesis by auto
qed

text \<open>C10 at the finding for goroutine 7.\<close>

theorem C10_orphan_fields_witness:
  "BlockedFor ex_orphan_finding = 120000000 \<and>
   (\<exists>g. (GoroutineID ex_orphan_finding, g) \<in> set [(7, ex_orphan)] \<and>
         Stack ex_orphan_finding = creationStack g \<and>
         Function ex_orphan_finding = creationFunction g \<and>
         Location ex_orphan_finding = creationLocation g)"
proof -
  have m: "ex_orphan_finding \<in> set (detectOrphans [(7, ex_orphan)] 120000000)"
    by (simp add: ex_orphans_short)
  from C10_orphan_fields [OF m] show ?thesis .
qed

section \<open>Transient long blocks\<close>

text \<open>The map \<^verbatim>\<open>seen\<close> holds exactly the locations of the findings emitted so far,
  and these locations are pairwise distinct.\<close>

lemma transientStep_inv:
  assumes "fst st = (\<lambda>loc. loc \<in> Location ` set (snd st))"
    and "distinct (map Location (snd st))"
  shows "fst (transientStep opts st e) =
           (\<lambda>loc. loc \<in> Location ` set (snd (transientStep opts st e)))
       \<and> distinct (map Location (snd (transientStep opts st e)))"
proof -
  obtain seen findings where st: "st = (seen, findings)" by (cases st)
  obtain gid g where e: "e = (gid, g)" by (cases e)
  from assms show ?thesis
    unfolding st e by (auto simp: transientStep_def fun_eq_iff)
qed

lemma transient_inv:
  "fst (foldl (transientStep opts) (\<lambda>loc. False, []) gs) =
     (\<lambda>loc. loc \<in> Location ` set (snd (foldl (transientStep opts) (\<lambda>loc. False, []) gs)))
   \<and> distinct (map Location (snd (foldl (transientStep opts) (\<lambda>loc. False, []) gs)))"
proof (induction gs rule: rev_induct)
  case Nil
  show ?case by simp
next
  case (snoc e gs)
  from transientStep_inv [OF conjunct1 [OF snoc.IH] conjunct2 [OF snoc.IH], of opts e]
  show ?case by simp
qed

lemma transient_snoc:
  "detectTransientBlocks (gs @ [(gid, g)]) opts =
     detectTransientBlocks gs opts @
       (if word_sle (MinBlock opts) (prevLongBlockDuration g) \<and>
           \<not> isRuntimeGoroutine (prevLongBlockStack g) \<and>
           prevLongBlockLocation g \<notin> Location ` set (detectTransientBlocks gs opts)
        then [\<lparr>Kind = KindLongBlock, Confidence = ConfidenceMedium, GoroutineID = gid,
               BlockedOn = prevLongBlockReason g, BlockedFor = prevLongBlockDuration g,
               Stack = prevLongBlockStack g, Function = prevLongBlockFunction g,
               Location = prevLongBlockLocation g\<rparr>]
        else [])"
proof -
  obtain seen findings
    where st: "foldl (transientStep opts) (\<lambda>loc. False, []) gs = (seen, findings)"
    by (cases "foldl (transientStep opts) (\<lambda>loc. False, []) gs")
  from transient_inv [of opts gs] have seen: "seen = (\<lambda>loc. loc \<in> Location ` set findings)"
    unfolding st by simp
  show ?thesis
    unfolding detectTransientBlocks_def foldl_append st
    by (simp add: transientStep_def seen word_sless_alt word_sle_eq not_less)
qed

lemma transient_prefix:
  "prefix (detectTransientBlocks gs opts) (detectTransientBlocks (gs @ later) opts)"
proof (induction later rule: rev_induct)
  case Nil
  show ?case by simp
next
  case (snoc e later)
  obtain gid g where e: "e = (gid, g)" by (cases e)
  have "prefix (detectTransientBlocks (gs @ later) opts)
               (detectTransientBlocks ((gs @ later) @ [(gid, g)]) opts)"
    unfolding transient_snoc by simp
  with snoc.IH show ?case unfolding e by (metis append.assoc prefix_order.order_trans)
qed

text \<open>C4: \<^const>\<open>detectTransientBlocks\<close> starts without findings; when the iteration
  reaches a goroutine, it emits a \<^verbatim>\<open>LongBlock\<close> of medium confidence for it if and only if
  its \<open>prev_long_duration\<close> is at least \<open>min_block\<close>, its \<open>prev_long_stack\<close> is not
  runtime-only and no finding with its \<open>prev_long_location\<close> has been emitted before, and
  it leaves the earlier findings as they are, as does the rest of the iteration; so the
  locations of the findings are pairwise distinct.\<close>

theorem C4_transient_blocks:
  "detectTransientBlocks [] opts = [] \<and>
   detectTransientBlocks (gs @ [(gid, g)]) opts =
     detectTransientBlocks gs opts @
       (if word_sle (MinBlock opts) (prevLongBlockDuration g) \<and>
           \<not> isRuntimeGoroutine (prevLongBlockStack g) \<and>
           prevLongBlockLocation g \<notin> Location ` set (detectTransientBlocks gs opts)
        then [\<lparr>Kind = KindLongBlock, Confidence = ConfidenceMedium, GoroutineID = gid,
               BlockedOn = prevLongBlockReason g, BlockedFor = prevLongBlockDuration g,
               Stack = prevLongBlockStack g, Function = prevLongBlockFunction g,
               Location = prevLongBlockLocation g\<rparr>]
        else []) \<and>
   prefix (detectTransientBlocks gs opts) (detectTransientBlocks (gs @ later) opts) \<and>
   distinct (map Location (detectTransientBlocks gs opts))"
proof (intro conjI)
  show "detectTransientBlocks [] opts = []"
    by (simp add: detectTransientBlocks_def)
next
  show "detectTransientBlocks (gs @ [(gid, g)]) opts =
     detectTransientBlocks gs opts @
       (if word_sle (MinBlock opts) (prevLongBlockDuration g) \<and>
           \<not> isRuntimeGoroutine (prevLongBlockStack g) \<and>
           prevLongBlockLocation g \<notin> Location ` set (detectTransientBlocks gs opts)
        then [\<lparr>Kind = KindLongBlock, Confidence = ConfidenceMedium, GoroutineID = gid,
               BlockedOn = prevLongBlockReason g, BlockedFor = prevLongBlockDuration g,
               Stack = prevLongBlockStack g, Function = prevLongBlockFunction g,
               Location = prevLongBlockLocation g\<rparr>]
        else [])"
    by (rule transient_snoc)
next
  show "prefix (detectTransientBlocks gs opts) (detectTransientBlocks (gs @ later) opts)"
    by (rule transient_prefix)
next
  show "distinct (map Location (detectTransientBlocks gs opts))"
    using transient_inv [of opts gs] by (simp add: detectTransientBlocks_def)
qed

lemma ex_transient_first:
  "detectTransientBlocks [(1, ex_sync_goroutine)] ex_options = [ex_sync_finding 1]"
  by (simp add: detectTransientBlocks_def transientStep_def ex_sync_goroutine_def
      zeroState_def ex_options_def ex_user_stack_user ex_sync_finding_def
      KindLongBlock_def ConfidenceMedium_def)

text \<open>C4 on two goroutines that waited at the same line: the second one adds no
  finding.\<close>

theorem C4_transient_blocks_witness:
  "detectTransientBlocks ([(1, ex_sync_goroutine)] @ [(2, ex_sync_goroutine)]) ex_options =
     [ex_sync_finding 1]"
proof -
  have loc: "prevLongBlockLocation ex_sync_goroutine = ''/app/main.go:42''"
    by (simp add: ex_sync_goroutine_def)
  from C4_transient_blocks [of ex_options "[(1, ex_sync_goroutine)]" 2 ex_sync_goroutine "[]"]
  show ?thesis
    by (simp add: ex_transient_first ex_sync_finding_def loc)
qed

section \<open>Two runs on the same trace\<close>












section \<open>Unblocking in the state engine\<close>

text \<open>On a transition from \<^verbatim>\<open>Waiting\<close> to an executing state or to \<^verbatim>\<open>Runnable\<close> the
  four \<^verbatim>\<open>if\<close> statements leave a record that is not blocked and whose reason, stack,
  function and location are empty.\<close>

lemma Analyze_unblocks:
  assumes "trFrom st = GoWaiting" and "Executing (trTo st) \<or> trTo st = GoRunnable"
  shows "\<not> isBlocked (applyTransition t st g) \<and> reason (applyTransition t st g) = [] \<and>
         stack (applyTransition t st g) = [] \<and> function' (applyTransition t st g) = [] \<and>
         location (applyTransition t st g) = []"
  using assms by (auto simp: applyTransition_def recordUnblock_def)

text \<open>C3: in whatever state the engine of \<^verbatim>\<open>Analyze\<close> is, after an event that is a
  transition of a goroutine from \<^verbatim>\<open>Waiting\<close> to an executing state (\<^verbatim>\<open>Running\<close> or
  \<^verbatim>\<open>Syscall\<close>) or to \<^verbatim>\<open>Runnable\<close>, the map holds a record for that goroutine that is not
  blocked and whose reason, stack, function and location are empty; in particular a
  transition from \<^verbatim>\<open>Waiting\<close> to \<^verbatim>\<open>Runnable\<close> clears \<open>is_blocked\<close>.\<close>

theorem C3_unblock_clears_current_block:
  assumes "evBody ev = GoroutineTransition st"
    and "trFrom st = GoWaiting"
    and "Executing (trTo st) \<or> trTo st = GoRunnable"
  shows "\<exists>g. goroutinesOf (handleEvent e ev) (trGoroutine st) = Some g \<and>
             \<not> isBlocked g \<and> reason g = [] \<and> stack g = [] \<and>
             function' g = [] \<and> location g = []"
proof -
  define g0 where
    "g0 = (case goroutinesOf e (trGoroutine st) of None \<Rightarrow> zeroState | Some g \<Rightarrow> g)"
  have "goroutinesOf (handleEvent e ev) (trGoroutine st) =
          Some (applyTransition (evTime ev) st g0)"
    using assms(1) by (simp add: handleEvent_def Let_def g0_def)
  with Analyze_unblocks [OF assms(2,3), of "evTime ev" g0] show ?thesis by simp
qed

text \<open>C3 on \<^const>\<open>ex_wake_trace\<close>: goroutine 5 blocks on a channel receive at time 10 and
  goes from \<^verbatim>\<open>Waiting\<close> to \<^verbatim>\<open>Runnable\<close> at time 20.\<close>

theorem C3_unblock_clears_current_block_witness:
  "map_option isBlocked (goroutinesOf (runEvents ex_wake_trace) 5) = Some False \<and>
   map_option reason (goroutinesOf (runEvents ex_wake_trace) 5) = Some []"
proof -
  let ?st = "\<lparr>trGoroutine = 5, trFrom = GoWaiting, trTo = GoRunnable, Reason = [],
              trStack = []\<rparr>"
  have run: "runEvents ex_wake_trace =
               handleEvent (runEvents [ex_block 5 ''chan receive'' 10]) (ex_wake 5 20)"
    by (simp add: runEvents_def ex_wake_trace_def)
  have b: "evBody (ex_wake 5 20) = GoroutineTransition ?st"
    by (simp add: ex_wake_def)
  have f: "trFrom ?st = GoWaiting" by simp
  have t: "Executing (trTo ?st) \<or> trTo ?st = GoRunnable" by simp
  from C3_unblock_clears_current_block
         [OF b f t, of "runEvents [ex_block 5 ''chan receive'' 10]"]
  show ?thesis unfolding run by auto
qed

text \<open>The standalone program's \<^verbatim>\<open>analyzeTrace\<close> is an earlier engine that tests
  \<^verbatim>\<open>to.Executing()\<close> only; there a transition from \<^verbatim>\<open>Waiting\<close> to \<^verbatim>\<open>Runnable\<close> leaves
  the record as it is.\<close>

lemma analyzeTrace_ignores_Runnable:
  assumes "trFrom st = GoWaiting" and "trTo st = GoRunnable"
  shows "applyTransitionL t st g = g"
  using assms by (simp add: applyTransitionL_def Executing_def)

section \<open>The static analyzer\<close>

text \<open>The search is sound and complete for the paths that leave the lock's block.\<close>

lemma lock_not_unlock: "isLockCall fn \<Longrightarrow> \<not> isUnlockCall fn"
  by (auto simp: isLockCall_def isUnlockCall_def split: option.splits)

lemma visitSuccs_result:
  "visitSuccs (v, q) ss = (v', q') \<Longrightarrow>
     set q' = set q \<union> {s \<in> set ss. \<not> v s} \<and> (\<forall>n. v' n \<longleftrightarrow> v n \<or> n \<in> set ss)"
proof (induction ss arbitrary: v q)
  case Nil
  then show ?case by simp
next
  case (Cons s ss)
  show ?case
  proof (cases "v s")
    case True
    with Cons.prems have "visitSuccs (v, q) ss = (v', q')" by simp
    from Cons.IH [OF this] True show ?thesis by auto
  next
    case False
    with Cons.prems have "visitSuccs (v(s := True), q @ [s]) ss = (v', q')" by simp
    from Cons.IH [OF this] False show ?thesis by auto
  qed
qed

lemma bfs_sound:
  "(\<And>n. (uidx n \<noteq> []) = list_ex spec_unlock_instr (Instrs (blockAt blocks n))) \<Longrightarrow>
   bfs blocks uidx visited queue \<Longrightarrow>
     \<exists>q \<in> set queue. uidx q = [] \<and> (\<exists>rest. spec_path_to_exit blocks q rest)"
proof (induction blocks uidx visited queue rule: bfs.induct)
  case (1 blocks uidx visited)
  then show ?case by simp
next
  case (2 blocks uidx visited cur queue)
  note H = "2.prems"(1)
  show ?case
  proof (cases "uidx cur \<noteq> []")
    case True
    with "2.prems"(2) have "bfs blocks uidx visited queue" by simp
    from "2.IH"(1) [OF True H this] show ?thesis by auto
  next
    case noU: False
    show ?thesis
    proof (cases "Succs (blockAt blocks cur) = []")
      case True
      then have "spec_path_to_exit blocks cur []" by simp
      then have "\<exists>rest. spec_path_to_exit blocks cur rest" ..
      with noU show ?thesis by simp
    next
      case False
      obtain v' q' where vs: "visitSuccs (visited, queue) (Succs (blockAt blocks cur)) = (v', q')"
        by (cases "visitSuccs (visited, queue) (Succs (blockAt blocks cur))")
      with "2.prems"(2) noU False have "bfs blocks uidx v' q'" by simp
      from "2.IH"(2) [OF noU False vs [symmetric] H this]
      obtain q rest where q: "q \<in> set q'" "uidx q = []" "spec_path_to_exit blocks q rest"
        by auto
      from visitSuccs_result [OF vs] q(1)
      have "q \<in> set queue \<or> q \<in> set (Succs (blockAt blocks cur))" by auto
      then show ?thesis
      proof
        assume "q \<in> set queue"
        with q show ?thesis by auto
      next
        assume "q \<in> set (Succs (blockAt blocks cur))"
        with q H [of q] have "spec_path_to_exit blocks cur (q # rest)" by simp
        then have "\<exists>rest. spec_path_to_exit blocks cur rest" ..
        with noU show ?thesis by simp
      qed
    qed
  qed
qed

lemma bfs_complete:
  "(\<And>n. (uidx n \<noteq> []) = list_ex spec_unlock_instr (Instrs (blockAt blocks n))) \<Longrightarrow>
   bfs_inv blocks visited queue \<Longrightarrow>
   \<exists>q \<in> set queue. \<exists>rest. bfs_good blocks q rest \<Longrightarrow>
   bfs blocks uidx visited queue"
proof (induction blocks uidx visited queue rule: bfs.induct)
  case (1 blocks uidx visited)
  then show ?case by simp
next
  case (2 blocks uidx visited cur queue)
  note H = "2.prems"(1)
  note inv = "2.prems"(2)
  note ex = "2.prems"(3)
  show ?case
  proof (cases "uidx cur \<noteq> []")
    case True
    then have bad: "\<not> bfs_good blocks cur rest" for rest
      using H [of cur] by (simp add: bfs_good_def)
    have inv': "bfs_inv blocks visited queue"
      unfolding bfs_inv_def
    proof (intro conjI allI impI ballI)
      fix q assume "q \<in> set queue"
      with inv show "visited q" by (simp add: bfs_inv_def)
    next
      fix n rest
      assume a: "visited n \<and> n \<notin> set queue \<and> bfs_good blocks n rest"
      with bad have "n \<noteq> cur" by auto
      with a inv obtain m rest' where "m \<in> set (cur # queue)" "bfs_good blocks m rest'"
        "length rest' < length rest"
        unfolding bfs_inv_def by (metis set_ConsD)
      with bad show "\<exists>m \<in> set queue. \<exists>rest'. bfs_good blocks m rest' \<and> length rest' < length rest"
        by auto
    qed
    from ex bad have ex': "\<exists>q \<in> set queue. \<exists>rest. bfs_good blocks q rest" by auto
    from "2.IH"(1) [OF True H inv' ex'] True show ?thesis by simp
  next
    case noU: False
    show ?thesis
    proof (cases "Succs (blockAt blocks cur) = []")
      case True
      with noU show ?thesis by simp
    next
      case False
      obtain v' q' where vs: "visitSuccs (visited, queue) (Succs (blockAt blocks cur)) = (v', q')"
        by (cases "visitSuccs (visited, queue) (Succs (blockAt blocks cur))")
      from visitSuccs_result [OF vs]
      have q': "set q' = set queue \<union> {s \<in> set (Succs (blockAt blocks cur)). \<not> visited s}"
        and v': "\<And>n. v' n \<longleftrightarrow> visited n \<or> n \<in> set (Succs (blockAt blocks cur))"
        by auto
      have K: "bfs_good blocks cur rest \<Longrightarrow>
          \<exists>m \<in> set q'. \<exists>rest'. bfs_good blocks m rest' \<and> length rest' < length rest" for rest
      proof (induction "length rest" arbitrary: rest rule: less_induct)
        case less
        from less.prems False obtain n r where rest: "rest = n # r"
          by (cases rest) (auto simp: bfs_good_def)
        with less.prems have n: "n \<in> set (Succs (blockAt blocks cur))"
          and gn: "bfs_good blocks n r"
          by (auto simp: bfs_good_def)
        show ?case
        proof (cases "n \<in> set q'")
          case True
          from rest have "length r < length rest" by simp
          with True gn show ?thesis by blast
        next
          case nq: False
          with q' n have vis: "visited n" and nqueue: "n \<notin> set queue" by auto
          show ?thesis
          proof (cases "n = cur")
            case True
            from rest have lr: "length r < length rest" by simp
            from gn True have "bfs_good blocks cur r" by simp
            from less.hyps [OF lr this] lr show ?thesis
              by (meson less_trans)
          next
            case False
            with vis nqueue gn inv obtain m rest' where m: "m \<in> set (cur # queue)"
              "bfs_good blocks m rest'" "length rest' < length r"
              unfolding bfs_inv_def by (metis set_ConsD)
            show ?thesis
            proof (cases "m = cur")
              case True
              from m(3) rest have lr: "length rest' < length rest" by simp
              from m(2) True have "bfs_good blocks cur rest'" by simp
              from less.hyps [OF lr this] lr show ?thesis
                by (meson less_trans)
            next
              case False
              with m(1) q' have mq: "m \<in> set q'" by auto
              from m(3) rest have "length rest' < length rest" by simp
              with mq m(2) show ?thesis by blast
            qed
          qed
        qed
      qed
      have inv': "bfs_inv blocks v' q'"
        unfolding bfs_inv_def
      proof (intro conjI allI impI ballI)
        fix q assume "q \<in> set q'"
        with q' v' inv show "v' q" by (auto simp: bfs_inv_def)
      next
        fix n rest
        assume a: "v' n \<and> n \<notin> set q' \<and> bfs_good blocks n rest"
        with q' v' have vis: "visited n" and nqueue: "n \<notin> set queue" by auto
        show "\<exists>m \<in> set q'. \<exists>rest'. bfs_good blocks m rest' \<and> length rest' < length rest"
        proof (cases "n = cur")
          case True
          with a K show ?thesis by simp
        next
          case False
          with vis nqueue a inv obtain m rest' where m: "m \<in> set (cur # queue)"
            "bfs_good blocks m rest'" "length rest' < length rest"
            unfolding bfs_inv_def by (metis set_ConsD)
          show ?thesis
          proof (cases "m = cur")
            case True
            with m(2) have "bfs_good blocks cur rest'" by simp
            from K [OF this] m(3) show ?thesis
              by (meson less_trans)
          next
            case False
            with m(1) q' have mq: "m \<in> set q'" by auto
            with m(2,3) show ?thesis by blast
          qed
        qed
      qed
      from ex obtain q rest where q: "q \<in> set (cur # queue)" "bfs_good blocks q rest" by auto
      have ex': "\<exists>q \<in> set q'. \<exists>rest. bfs_good blocks q rest"
      proof (cases "q = cur")
        case True
        with q(2) have "bfs_good blocks cur rest" by simp
        from K [OF this] show ?thesis by blast
      next
        case False
        with q(1) q' have "q \<in> set q'" by auto
        with q(2) show ?thesis by blast
      qed
      from "2.IH"(2) [OF noU False vs [symmetric] H inv' ex'] noU False vs
      show ?thesis by simp
    qed
  qed
qed

text \<open>What phase 1 collects: the unlock indices of every block, the deferred unlocks and
  the lock sites.\<close>

lemma scanInstr_step:
  "foldl (scanInstr bi) sc (enumerate j (i # instrs)) =
     foldl (scanInstr bi) (scanInstr bi sc (j, i)) (enumerate (Suc j) instrs)"
  by simp

lemma scanInstr_one_unlockIdx:
  "unlockIdx (scanInstr bi sc (j, i)) =
     (if spec_unlock_instr i then (unlockIdx sc)(bi := unlockIdx sc bi @ [j]) else unlockIdx sc)"
  by (cases i) (auto simp: scanInstr_def spec_unlock_instr_def Let_def lock_not_unlock)

lemma scanInstr_one_defer:
  "hasDeferUnlock (scanInstr bi sc (j, i)) =
     (hasDeferUnlock sc \<or>
      (case i of Defer c \<Rightarrow> isUnlockCall (calleeFunc c) | Call c p \<Rightarrow> False | OtherInstr \<Rightarrow> False))"
  by (cases i) (auto simp: scanInstr_def Let_def)

lemma scanInstr_unlockIdx:
  "unlockIdx (foldl (scanInstr bi) sc (enumerate j instrs)) =
     (unlockIdx sc)(bi := unlockIdx sc bi @
        map fst (filter (\<lambda>e. spec_unlock_instr (snd e)) (enumerate j instrs)))"
proof (induction instrs arbitrary: j sc)
  case Nil
  show ?case by simp
next
  case (Cons i instrs)
  show ?case
    unfolding scanInstr_step Cons.IH scanInstr_one_unlockIdx
    by (auto simp: fun_eq_iff)
qed

lemma scanInstr_defer:
  "hasDeferUnlock (foldl (scanInstr bi) sc (enumerate j instrs)) =
     (hasDeferUnlock sc \<or>
      list_ex (\<lambda>i. case i of Defer c \<Rightarrow> isUnlockCall (calleeFunc c) | Call c p \<Rightarrow> False
                     | OtherInstr \<Rightarrow> False) instrs)"
proof (induction instrs arbitrary: j sc)
  case Nil
  show ?case by simp
next
  case (Cons i instrs)
  show ?case
    unfolding scanInstr_step Cons.IH scanInstr_one_defer by simp
qed

lemma scanBlock_step:
  "foldl scanBlock sc (enumerate k (x # bs)) =
     foldl scanBlock (foldl (scanInstr k) sc (enumerate 0 (Instrs x))) (enumerate (Suc k) bs)"
  by (simp add: scanBlock_def)

lemma scanBlock_unlockIdx:
  "unlockIdx (foldl scanBlock sc (enumerate k bs)) b =
     unlockIdx sc b @
       (if k \<le> b \<and> b < k + length bs
        then map fst (filter (\<lambda>e. spec_unlock_instr (snd e)) (enumerate 0 (Instrs (bs ! (b - k)))))
        else [])"
proof (induction bs arbitrary: k sc)
  case Nil
  show ?case by auto
next
  case (Cons x bs)
  show ?case
  proof (cases "b = k")
    case True
    then show ?thesis
      unfolding scanBlock_step Cons.IH by (simp add: scanInstr_unlockIdx)
  next
    case False
    then show ?thesis
      unfolding scanBlock_step Cons.IH
      by (auto simp: scanInstr_unlockIdx Suc_diff_le nth_Cons')
  qed
qed

lemma scanBlock_defer:
  "hasDeferUnlock (foldl scanBlock sc (enumerate k bs)) =
     (hasDeferUnlock sc \<or>
      list_ex (\<lambda>b. list_ex (\<lambda>i. case i of Defer c \<Rightarrow> isUnlockCall (calleeFunc c)
                                    | Call c p \<Rightarrow> False | OtherInstr \<Rightarrow> False) (Instrs b)) bs)"
proof (induction bs arbitrary: k sc)
  case Nil
  show ?case by simp
next
  case (Cons x bs)
  show ?case
    unfolding scanBlock_step Cons.IH by (simp add: scanInstr_defer)
qed

lemma scanFn_unlockIdx:
  "unlockIdx (scanFn blocks) b =
     map fst (filter (\<lambda>e. spec_unlock_instr (snd e)) (enumerate 0 (Instrs (blockAt blocks b))))"
  by (simp add: scanFn_def scanBlock_unlockIdx blockAt_def)

lemma scanFn_defer: "hasDeferUnlock (scanFn (Blocks fn)) = spec_deferred_unlock fn"
  by (simp add: scanFn_def scanBlock_defer spec_deferred_unlock_def)

lemma unlock_indices:
  "set (map fst (filter (\<lambda>e. P (snd e)) (enumerate 0 xs))) = {i. i < length xs \<and> P (xs ! i)}"
  by (auto simp: in_set_enumerate_eq image_iff)

lemma scanFn_block_unlocks:
  "(unlockIdx (scanFn blocks) b \<noteq> []) = list_ex spec_unlock_instr (Instrs (blockAt blocks b))"
proof -
  have "(unlockIdx (scanFn blocks) b \<noteq> []) = (set (unlockIdx (scanFn blocks) b) \<noteq> {})"
    by simp
  also have "\<dots> = list_ex spec_unlock_instr (Instrs (blockAt blocks b))"
    unfolding scanFn_unlockIdx unlock_indices
    by (auto simp: list_ex_iff in_set_conv_nth intro: nth_mem)
  finally show ?thesis .
qed

lemma hasUnlockFrom_iff: "hasUnlockFrom uis k \<longleftrightarrow> (\<exists>ui \<in> set uis. k \<le> ui)"
  by (induction uis) auto

lemma scanFn_unlock_later:
  "hasUnlockAfterIdx b k (unlockIdx (scanFn blocks)) =
     list_ex spec_unlock_instr (drop k (Instrs (blockAt blocks b)))"
proof -
  have "list_ex P (drop k xs) \<longleftrightarrow> (\<exists>i. k \<le> i \<and> i < length xs \<and> P (xs ! i))" for P and xs :: "Instr list"
  proof
    assume "list_ex P (drop k xs)"
    then obtain j where "j < length xs - k" "P (drop k xs ! j)"
      by (auto simp: list_ex_iff in_set_conv_nth)
    then have "k \<le> k + j \<and> k + j < length xs \<and> P (xs ! (k + j))" by simp
    then show "\<exists>i. k \<le> i \<and> i < length xs \<and> P (xs ! i)" by blast
  next
    assume "\<exists>i. k \<le> i \<and> i < length xs \<and> P (xs ! i)"
    then obtain i where i: "k \<le> i" "i < length xs" "P (xs ! i)" by blast
    then have "i - k < length (drop k xs)" "drop k xs ! (i - k) = xs ! i" by simp_all
    with i(3) show "list_ex P (drop k xs)"
      unfolding list_ex_iff by (metis nth_mem)
  qed
  then show ?thesis
    unfolding hasUnlockAfterIdx_def hasUnlockFrom_iff scanFn_unlockIdx unlock_indices
    by auto
qed

text \<open>Phase 2: the search from a lock site succeeds exactly when a path of at least one
  successor leads from the lock's block to an exit without an unlock.\<close>

lemma reportSites_filter:
  "reportSites fn uidx findings sites =
     findings @
     map (\<lambda>ls. \<lparr>SFunction = RelString fn,
                 SLocation = Filename (lsPos ls) @ '':'' @ showNat (PosLine (lsPos ls)),
                 Message = ''mutex Lock() acquired but not released on all exit paths''\<rparr>)
       (filter (\<lambda>ls. pathExistsWithoutUnlock fn ls uidx) sites)"
  by (induction sites arbitrary: findings) simp_all

lemma pathExists_iff:
  "pathExistsWithoutUnlock fn ls (unlockIdx (scanFn (Blocks fn))) \<longleftrightarrow>
     \<not> list_ex spec_unlock_instr (drop (lsIdx ls + 1) (Instrs (blockAt (Blocks fn) (lsBlock ls)))) \<and>
     (\<exists>n rest. spec_path_to_exit (Blocks fn) (lsBlock ls) (n # rest))"
proof -
  define blocks where "blocks = Blocks fn"
  define uidx where "uidx = unlockIdx (scanFn blocks)"
  have H: "\<And>n. (uidx n \<noteq> []) = list_ex spec_unlock_instr (Instrs (blockAt blocks n))"
    unfolding uidx_def by (rule scanFn_block_unlocks)
  obtain v q where vs: "visitSuccs (\<lambda>i. False, []) (Succs (blockAt blocks (lsBlock ls))) = (v, q)"
    by (cases "visitSuccs (\<lambda>i. False, []) (Succs (blockAt blocks (lsBlock ls)))")
  from visitSuccs_result [OF vs]
  have q: "set q = set (Succs (blockAt blocks (lsBlock ls)))"
    and v: "\<And>n. v n \<longleftrightarrow> n \<in> set (Succs (blockAt blocks (lsBlock ls)))"
    by auto
  have inv: "bfs_inv blocks v q"
    unfolding bfs_inv_def using q v by auto
  have "bfs blocks uidx v q \<longleftrightarrow> (\<exists>n \<in> set q. \<exists>rest. bfs_good blocks n rest)"
  proof
    assume "bfs blocks uidx v q"
    from bfs_sound [OF H this] show "\<exists>n \<in> set q. \<exists>rest. bfs_good blocks n rest"
      using H by (auto simp: bfs_good_def)
  next
    assume "\<exists>n \<in> set q. \<exists>rest. bfs_good blocks n rest"
    from bfs_complete [OF H inv this] show "bfs blocks uidx v q" .
  qed
  also have "\<dots> \<longleftrightarrow> (\<exists>n rest. spec_path_to_exit blocks (lsBlock ls) (n # rest))"
    unfolding q by (auto simp: bfs_good_def)
  finally show ?thesis
    unfolding pathExistsWithoutUnlock_def blocks_def [symmetric] uidx_def [symmetric]
    using vs by (simp add: uidx_def scanFn_unlock_later)
qed

text \<open>The lock sites of phase 1 are the calls of a lock function, each with its block,
  its index and its position.\<close>

lemma scanInstr_one_lockSites:
  "set (lockSites (scanInstr bi sc (j, i))) =
     set (lockSites sc) \<union>
     {\<lparr>lsBlock = bi, lsIdx = j, lsPos = p\<rparr> | p c. i = Call c p \<and> isLockCall (calleeFunc c)}"
  by (cases i) (auto simp: scanInstr_def Let_def)

lemma scanInstr_lockSites:
  "set (lockSites (foldl (scanInstr bi) sc (enumerate j instrs))) =
     set (lockSites sc) \<union>
     {\<lparr>lsBlock = bi, lsIdx = j + i, lsPos = p\<rparr> | i p c.
        i < length instrs \<and> instrs ! i = Call c p \<and> isLockCall (calleeFunc c)}"
proof (induction instrs arbitrary: j sc)
  case Nil
  show ?case by simp
next
  case (Cons x instrs)
  have split: "{\<lparr>lsBlock = bi, lsIdx = j + i, lsPos = p\<rparr> | i p c.
        i < length (x # instrs) \<and> (x # instrs) ! i = Call c p \<and> isLockCall (calleeFunc c)} =
      {\<lparr>lsBlock = bi, lsIdx = j, lsPos = p\<rparr> | p c. x = Call c p \<and> isLockCall (calleeFunc c)} \<union>
      {\<lparr>lsBlock = bi, lsIdx = Suc j + i, lsPos = p\<rparr> | i p c.
        i < length instrs \<and> instrs ! i = Call c p \<and> isLockCall (calleeFunc c)}"
    (is "?A = ?B \<union> ?C")
  proof (intro set_eqI iffI)
    fix ls assume "ls \<in> ?A"
    then obtain i p c where ls: "ls = \<lparr>lsBlock = bi, lsIdx = j + i, lsPos = p\<rparr>"
      and i: "i < length (x # instrs)" "(x # instrs) ! i = Call c p" "isLockCall (calleeFunc c)"
      by blast
    show "ls \<in> ?B \<union> ?C"
    proof (cases i)
      case 0
      with ls i show ?thesis by auto
    next
      case (Suc i')
      with ls i have "ls = \<lparr>lsBlock = bi, lsIdx = Suc j + i', lsPos = p\<rparr>"
        "i' < length instrs" "instrs ! i' = Call c p" by simp_all
      with i(3) have "ls \<in> ?C" by blast
      then show ?thesis ..
    qed
  next
    fix ls assume "ls \<in> ?B \<union> ?C"
    then show "ls \<in> ?A"
    proof
      assume "ls \<in> ?B"
      then obtain p c where "ls = \<lparr>lsBlock = bi, lsIdx = j + 0, lsPos = p\<rparr>"
        "0 < length (x # instrs)" "(x # instrs) ! 0 = Call c p" "isLockCall (calleeFunc c)"
        by auto
      then show ?thesis by blast
    next
      assume "ls \<in> ?C"
      then obtain i p c where "ls = \<lparr>lsBlock = bi, lsIdx = j + Suc i, lsPos = p\<rparr>"
        "Suc i < length (x # instrs)" "(x # instrs) ! Suc i = Call c p" "isLockCall (calleeFunc c)"
        by auto
      then show ?thesis by blast
    qed
  qed
  show ?case
    unfolding scanInstr_step Cons.IH scanInstr_one_lockSites split by blast
qed

lemma scanBlock_lockSites:
  "set (lockSites (foldl scanBlock sc (enumerate k bs))) =
     set (lockSites sc) \<union>
     {\<lparr>lsBlock = k + b, lsIdx = i, lsPos = p\<rparr> | b i p c.
        b < length bs \<and> i < length (Instrs (bs ! b)) \<and> Instrs (bs ! b) ! i = Call c p \<and>
        isLockCall (calleeFunc c)}"
proof (induction bs arbitrary: k sc)
  case Nil
  show ?case by simp
next
  case (Cons x bs)
  have split: "{\<lparr>lsBlock = k + b, lsIdx = i, lsPos = p\<rparr> | b i p c.
        b < length (x # bs) \<and> i < length (Instrs ((x # bs) ! b)) \<and>
        Instrs ((x # bs) ! b) ! i = Call c p \<and> isLockCall (calleeFunc c)} =
      {\<lparr>lsBlock = k, lsIdx = 0 + i, lsPos = p\<rparr> | i p c.
        i < length (Instrs x) \<and> Instrs x ! i = Call c p \<and> isLockCall (calleeFunc c)} \<union>
      {\<lparr>lsBlock = Suc k + b, lsIdx = i, lsPos = p\<rparr> | b i p c.
        b < length bs \<and> i < length (Instrs (bs ! b)) \<and> Instrs (bs ! b) ! i = Call c p \<and>
        isLockCall (calleeFunc c)}"
    (is "?A = ?B \<union> ?C")
  proof (intro set_eqI iffI)
    fix ls assume "ls \<in> ?A"
    then obtain b i p c where ls: "ls = \<lparr>lsBlock = k + b, lsIdx = i, lsPos = p\<rparr>"
      and b: "b < length (x # bs)" "i < length (Instrs ((x # bs) ! b))"
        "Instrs ((x # bs) ! b) ! i = Call c p" "isLockCall (calleeFunc c)"
      by blast
    show "ls \<in> ?B \<union> ?C"
    proof (cases b)
      case 0
      with ls b have "ls \<in> ?B" by auto
      then show ?thesis ..
    next
      case (Suc b')
      with ls b have "ls = \<lparr>lsBlock = Suc k + b', lsIdx = i, lsPos = p\<rparr>"
        "b' < length bs" "i < length (Instrs (bs ! b'))" "Instrs (bs ! b') ! i = Call c p"
        by simp_all
      with b(4) have "ls \<in> ?C" by blast
      then show ?thesis ..
    qed
  next
    fix ls assume "ls \<in> ?B \<union> ?C"
    then show "ls \<in> ?A"
    proof
      assume "ls \<in> ?B"
      then obtain i p c where "ls = \<lparr>lsBlock = k + 0, lsIdx = i, lsPos = p\<rparr>"
        "0 < length (x # bs)" "i < length (Instrs ((x # bs) ! 0))"
        "Instrs ((x # bs) ! 0) ! i = Call c p" "isLockCall (calleeFunc c)"
        by auto
      then show ?thesis by blast
    next
      assume "ls \<in> ?C"
      then obtain b i p c where "ls = \<lparr>lsBlock = k + Suc b, lsIdx = i, lsPos = p\<rparr>"
        "Suc b < length (x # bs)" "i < length (Instrs ((x # bs) ! Suc b))"
        "Instrs ((x # bs) ! Suc b) ! i = Call c p" "isLockCall (calleeFunc c)"
        by auto
      then show ?thesis by blast
    qed
  qed
  show ?case
    unfolding scanBlock_step Cons.IH scanInstr_lockSites split by blast
qed

lemma scanFn_lockSites:
  "set (lockSites (scanFn blocks)) =
     {\<lparr>lsBlock = b, lsIdx = i, lsPos = p\<rparr> | b i p c.
        b < length blocks \<and> i < length (Instrs (blocks ! b)) \<and>
        Instrs (blocks ! b) ! i = Call c p \<and> isLockCall (calleeFunc c)}"
  unfolding scanFn_def scanBlock_lockSites by simp

text \<open>So \<^const>\<open>analyzeFn\<close> reports nothing for a function with a deferred unlock, and
  otherwise one finding for every lock site that has no unlock later in its block and
  from whose block a path of at least one successor reaches an exit through blocks
  without an unlock.  The path without any successor, of a lock in an exit block, is
  not among them.\<close>

lemma analyzeFn_paths:
  "analyzeFn fn =
     (if spec_deferred_unlock fn then []
      else map (\<lambda>ls. \<lparr>SFunction = RelString fn,
                       SLocation = Filename (lsPos ls) @ '':'' @ showNat (PosLine (lsPos ls)),
                       Message = ''mutex Lock() acquired but not released on all exit paths''\<rparr>)
             (filter (\<lambda>ls. \<exists>n rest. spec_unlock_free_path fn ls (n # rest))
                (lockSites (scanFn (Blocks fn)))))"
proof (cases "spec_deferred_unlock fn")
  case True
  then show ?thesis by (simp add: analyzeFn_def scanFn_defer Let_def)
next
  case False
  have empty: "Blocks fn = [] \<Longrightarrow> lockSites (scanFn (Blocks fn)) = []"
    by (simp add: scanFn_def)
  from False show ?thesis
    using empty
    by (auto simp: analyzeFn_def scanFn_defer Let_def reportSites_filter pathExists_iff
        spec_unlock_free_path_def)
qed

subsection \<open>A lock in an exit block\<close>

lemma analyzeFn_reports_branch:
  "analyzeFn ex_lock_branch = [ex_static] \<and>
   spec_unlock_free_path ex_lock_branch ex_lock_site [1]"
  by code_simp

text \<open>C7 fails in \<^const>\<open>analyzeFn\<close>: the function \<^const>\<open>ex_lock_only\<close> has no deferred
  unlock and one lock site, in a block without successors and without a later unlock,
  so the path that consists of this block alone reaches the exit without an unlock;
  yet \<^const>\<open>analyzeFn\<close> reports nothing, because the search starts from the successors of
  the lock's block.\<close>

theorem C7_exit_block_lock_not_reported:
  "lockSites (scanFn (Blocks ex_lock_only)) = [ex_lock_site] \<and>
   spec_unlock_free_path ex_lock_only ex_lock_site [] \<and>
   analyzeFn ex_lock_only = []"
  by code_simp

section \<open>Static findings in the structured output\<close>

lemma appendStatic_Findings:
  "appendStatic result sfs = result\<lparr>Findings := Findings result @ map staticToFinding sfs\<rparr>"
proof (induction sfs arbitrary: result)
  case Nil
  show ?case by (simp add: appendStatic_def)
next
  case (Cons sf sfs)
  have "appendStatic result (sf # sfs) =
        appendStatic (result\<lparr>Findings := Findings result @ [staticToFinding sf]\<rparr>) sfs"
    by (simp add: appendStatic_def)
  then show ?case by (simp add: Cons.IH)
qed

lemma convert_fold:
  "map (\<lambda>jf. jf\<lparr>jExplanation := []\<rparr>) (foldl (convertStep e) acc fs) =
   map (\<lambda>jf. jf\<lparr>jExplanation := []\<rparr>) acc @
   map (\<lambda>f. \<lparr>jKind = Kind f, jConfidence = Confidence f, jGoroutineID = GoroutineID f,
              jBlockedOn = BlockedOn f,
              jBlockedForMs = Milliseconds (Round (BlockedFor f) Millisecond),
              jFunction = Function f, jLocation = Location f, jStack = Stack f,
              jExplanation = []\<rparr>) fs"
proof (induction fs arbitrary: acc)
  case Nil
  show ?case by simp
next
  case (Cons f fs)
  have "foldl (convertStep e) acc (f # fs) = foldl (convertStep e) (convertStep e acc f) fs"
    by simp
  then show ?case
    by (simp add: Cons.IH) (simp add: convertStep_def Let_def)
qed

lemma Round_zero: "Milliseconds (Round 0 Millisecond) = 0"
  by (simp add: Milliseconds_def Round_def Millisecond_def lessThanHalf_def Let_def)

lemma findingsOf_WriteJSON:
  "findingsOf (WriteJSON result e) =
   map (\<lambda>f. marshalFinding
         \<lparr>jKind = Kind f, jConfidence = Confidence f, jGoroutineID = GoroutineID f,
          jBlockedOn = BlockedOn f,
          jBlockedForMs = Milliseconds (Round (BlockedFor f) Millisecond),
          jFunction = Function f, jLocation = Location f, jStack = Stack f,
          jExplanation = []\<rparr>) (Findings result)"
proof -
  have "findingsOf (WriteJSON result e) =
        map marshalFinding
          (map (\<lambda>jf. jf\<lparr>jExplanation := []\<rparr>) (foldl (convertStep e) [] (Findings result)))"
    by (simp add: findingsOf_def WriteJSON_def jsonMember_def Let_def del: map_map)
  then show ?thesis
    unfolding convert_fold by (simp add: comp_def)
qed

text \<open>C9, as stated, fails: the object written for the static finding \<^const>\<open>ex_static\<close>
  has a member \<^verbatim>\<open>goroutine_id\<close>, with the value 0.\<close>

theorem C9_counterexample:
  "findingsOf (WriteJSON (appendStatic ex_result [ex_static]) []) = [ex_static_json] \<and>
   jsonMember ex_static_json ''goroutine_id'' = Some (JNumber 0)"
  by code_simp

text \<open>C9, amended: the static findings are written after the findings of the
  analyzer, each as an object with kind \<^verbatim>\<open>lock_leak\<close>, confidence \<^verbatim>\<open>low\<close>, the member
  \<^verbatim>\<open>goroutine_id\<close> with the value 0, the message as \<^verbatim>\<open>blocked_on\<close>, \<^verbatim>\<open>blocked_for_ms\<close> 0,
  the function and the location when they are not empty, and no stack.\<close>

theorem C9_static_findings_json:
  "findingsOf (WriteJSON (appendStatic result sfs) explanation) =
     findingsOf (WriteJSON result explanation) @
     map (\<lambda>sf. JObject
            ([(''kind'', JString ''lock_leak''), (''confidence'', JString ''low''),
              (''goroutine_id'', JNumber 0),
              (''blocked_on'', JString (Message sf)),
              (''blocked_for_ms'', JNumber 0)]
             @ omitempty ''function'' (SFunction sf)
             @ omitempty ''location'' (SLocation sf))) sfs"
  by (simp add: findingsOf_WriteJSON appendStatic_Findings staticToFinding_def
      marshalFinding_def Round_zero KindLockLeak_def ConfidenceLow_def omitempty_def comp_def)

text \<open>C9, amended, on the result with the one static finding \<^const>\<open>ex_static\<close>.\<close>

theorem C9_static_findings_json_witness:
  "findingsOf (WriteJSON (appendStatic ex_result [ex_static]) []) = [ex_static_json]"
  using C9_static_findings_json [of ex_result "[ex_static]" "[]"]
  by (simp add: findingsOf_WriteJSON ex_result_def ex_static_def ex_static_json_def omitempty_def)

end
